theory Spec2Isabelle
  imports Complex_Main
begin

unbundle bit_operations_syntax

section \<open>The RPN logic engine of mqttautomation (\<^verbatim>\<open>rpnlogic.c\<close>)\<close>

text \<open>
  The development embeds the expression compiler \<^verbatim>\<open>rpn_parse\<close>, the evaluator
  \<^verbatim>\<open>rpn_run\<close> and the operator functions \<^verbatim>\<open>rpn_do_*\<close> of \<^verbatim>\<open>rpnlogic.c\<close>.
  Mutation is explicit state passing: an operator receives the stack and the node it
  runs for and returns the values it may have changed together with its return code;
  the nodes of a chain live in a store that maps addresses to nodes, the chain being
  linked through the \<^verbatim>\<open>next\<close> pointers as in the source.
\<close>

subsection \<open>Values of type \<^verbatim>\<open>double\<close>\<close>

text \<open>
  A \<^verbatim>\<open>double\<close> is a finite number, an infinity or a NaN. Finite numbers are modelled as
  reals: rounding, overflow to infinity and the sign of zero are not modelled. The
  special values are: a division by zero and a quotient of infinities produce them in
  the source, and every ordered comparison with a NaN is false.
\<close>

datatype double = Num real | PInf | NInf | NaN

fun d_neg :: "double \<Rightarrow> double" where
  "d_neg (Num a) = Num (- a)"
| "d_neg PInf = NInf"
| "d_neg NInf = PInf"
| "d_neg NaN = NaN"

fun d_add :: "double \<Rightarrow> double \<Rightarrow> double" where
  "d_add (Num a) (Num b) = Num (a + b)"
| "d_add NaN _ = NaN"
| "d_add _ NaN = NaN"
| "d_add PInf NInf = NaN"
| "d_add NInf PInf = NaN"
| "d_add PInf _ = PInf"
| "d_add _ PInf = PInf"
| "d_add NInf _ = NInf"
| "d_add _ NInf = NInf"

definition d_sub :: "double \<Rightarrow> double \<Rightarrow> double" where
  "d_sub a b = d_add a (d_neg b)"

text \<open>The sign of an operand, for the rules of the infinities (a zero counts as positive).\<close>

fun d_negative :: "double \<Rightarrow> bool" where
  "d_negative (Num a) = (a < 0)"
| "d_negative NInf = True"
| "d_negative _ = False"

definition d_inf :: "bool \<Rightarrow> double" where
  "d_inf negative = (if negative then NInf else PInf)"

fun d_mul :: "double \<Rightarrow> double \<Rightarrow> double" where
  "d_mul (Num a) (Num b) = Num (a * b)"
| "d_mul NaN _ = NaN"
| "d_mul _ NaN = NaN"
| "d_mul a b =
     (if a = Num 0 \<or> b = Num 0 then NaN else d_inf (d_negative a \<noteq> d_negative b))"

fun d_div :: "double \<Rightarrow> double \<Rightarrow> double" where
  "d_div NaN _ = NaN"
| "d_div _ NaN = NaN"
| "d_div (Num a) (Num b) =
     (if b \<noteq> 0 then Num (a / b) else if a = 0 then NaN else d_inf (a < 0))"
| "d_div (Num a) _ = Num 0"
| "d_div a (Num b) = d_inf (d_negative a \<noteq> (b < 0))"
| "d_div _ _ = NaN"

fun d_lt :: "double \<Rightarrow> double \<Rightarrow> bool" where
  "d_lt (Num a) (Num b) = (a < b)"
| "d_lt NaN _ = False"
| "d_lt _ NaN = False"
| "d_lt NInf b = (b \<noteq> NInf)"
| "d_lt a PInf = (a \<noteq> PInf)"
| "d_lt _ _ = False"

definition d_gt :: "double \<Rightarrow> double \<Rightarrow> bool" where
  "d_gt a b = d_lt b a"

fun d_le :: "double \<Rightarrow> double \<Rightarrow> bool" where
  "d_le NaN _ = False"
| "d_le _ NaN = False"
| "d_le a b = (a = b \<or> d_lt a b)"

definition d_ge :: "double \<Rightarrow> double \<Rightarrow> bool" where
  "d_ge a b = d_le b a"

text \<open>The conversion of an \<^verbatim>\<open>int\<close> to \<^verbatim>\<open>double\<close>, and the value of a C truth value.\<close>

definition d_of_int :: "int \<Rightarrow> double" where
  "d_of_int i = Num (of_int i)"

definition c_bool :: "bool \<Rightarrow> int" where
  "c_bool b = (if b then 1 else 0)"

text \<open>
  The cast \<^verbatim>\<open>(int)x\<close> drops the fraction (rounding towards zero). C defines it only
  when the result fits an \<^verbatim>\<open>int\<close>; for the other operands (NaN, the infinities, a
  magnitude of \<open>2^31\<close> and more) the model returns \<^verbatim>\<open>INT_MIN\<close>, which is what the
  conversion instruction of x86 delivers.
\<close>

definition INT_MIN :: int where
  "INT_MIN = - (2 ^ 31)"

definition trunc_real :: "real \<Rightarrow> int" where
  "trunc_real a = (if 0 \<le> a then \<lfloor>a\<rfloor> else \<lceil>a\<rceil>)"

fun c_int :: "double \<Rightarrow> int" where
  "c_int (Num a) =
     (if INT_MIN \<le> trunc_real a \<and> trunc_real a < 2 ^ 31 then trunc_real a else INT_MIN)"
| "c_int _ = INT_MIN"

subsection \<open>The stack\<close>

text \<open>
  \<^verbatim>\<open>struct stack\<close>: the array \<^verbatim>\<open>v\<close> of \<^verbatim>\<open>s\<close> allocated cells, of which the first
  \<^verbatim>\<open>n\<close> are in use. The fields carry the prefix \<open>st_\<close>. The cells from index \<^verbatim>\<open>n\<close>
  on keep whatever was written to them last.
\<close>

record stack =
  st_v :: "double list"
  st_n :: nat
  st_s :: nat

text \<open>
  \<^verbatim>\<open>realloc\<close> to \<open>k\<close> cells keeps the old cells; the content of the new ones is
  indeterminate in C and fixed to zero here. Allocation does not fail in the model (in
  the source a failure ends the process).
\<close>

definition realloc :: "double list \<Rightarrow> nat \<Rightarrow> double list" where
  "realloc xs k = take k xs @ replicate (k - length xs) (Num 0)"

definition rpn_push :: "stack \<Rightarrow> double \<Rightarrow> stack" where
  "rpn_push st val =
     (let st1 = (if st_s st \<le> st_n st
                 then st\<lparr>st_s := st_s st + 16, st_v := realloc (st_v st) (st_s st + 16)\<rparr>
                 else st)
      in st1\<lparr>st_v := (st_v st1)[st_n st1 := val], st_n := st_n st1 + 1\<rparr>)"

definition rpn_stack_reset :: "stack \<Rightarrow> stack" where
  "rpn_stack_reset st = st\<lparr>st_n := 0\<rparr>"

text \<open>The stacks the program can hold: the array has \<^verbatim>\<open>s\<close> cells and \<^verbatim>\<open>n\<close> is within.\<close>

definition stack_ok :: "stack \<Rightarrow> bool" where
  "stack_ok st = (length (st_v st) = st_s st \<and> st_n st \<le> st_s st)"

text \<open>The values in use, bottom first.\<close>

definition stack_vals :: "stack \<Rightarrow> double list" where
  "stack_vals st = take (st_n st) (st_v st)"

subsection \<open>Nodes, timers and the store\<close>

type_synonym ptr = nat

text \<open>
  The function a node runs (the pointer \<^verbatim>\<open>run\<close> of \<^verbatim>\<open>struct rpn\<close>), one constructor
  for each \<^verbatim>\<open>rpn_do_*\<close> function of the source.
\<close>

datatype opcode =
    Do_plus | Do_minus | Do_mul | Do_div | Do_pow
  | Do_limit | Do_inrange
  | Do_bitand | Do_bitor | Do_bitxor | Do_bitinv
  | Do_booland | Do_boolor | Do_boolnot
  | Do_lt | Do_gt
  | Do_const | Do_env | Do_dup | Do_swap
  | Do_offdelay | Do_ondelay | Do_pulse
  | Do_edge | Do_rising | Do_falling
  | Do_timeofday | Do_dayofweek

text \<open>
  \<^verbatim>\<open>struct rpn\<close> (declared in \<^verbatim>\<open>rpnlogic.h\<close>), with the fields the source uses, under
  the prefix \<open>r_\<close>. A null pointer is \<open>None\<close>. The option string points into the
  topic's memory, so a node and its topic are one unit of allocation.
\<close>

record rpn =
  r_next :: "ptr option"
  r_run :: "opcode option"
  r_value :: double
  r_topic :: "string option"
  r_options :: "string option"
  r_cookie :: int
  r_dat :: ptr

text \<open>
  The calls that leave \<^verbatim>\<open>rpnlogic.c\<close>: to the timer scheduler of \<^verbatim>\<open>libt\<close>, whose timers
  are keyed by a callback and its argument, and to \<^verbatim>\<open>rpn_run_again\<close> of the owner.
\<close>

datatype callback = On_delay | Rpn_run_again

datatype effect =
    Libt_add_timeout double callback ptr
  | Libt_remove_timeout callback ptr
  | Call_rpn_run_again ptr

text \<open>\<^verbatim>\<open>struct tm\<close>, with the fields the source reads.\<close>

record tm =
  tm_sec :: int
  tm_min :: int
  tm_hour :: int
  tm_wday :: int

text \<open>
  What the source takes from outside: \<^verbatim>\<open>pow\<close> of the C library, \<^verbatim>\<open>rpn_lookup_env\<close> of
  the program that owns the chains (called with the topic and the node), and the
  clock: \<open>x_localtime k\<close> is what the \<open>k\<close>-th call of \<^verbatim>\<open>time\<close> and \<^verbatim>\<open>localtime\<close>
  returns.
\<close>

record ext =
  x_pow :: "double \<Rightarrow> double \<Rightarrow> double"
  x_lookup_env :: "string option \<Rightarrow> ptr \<Rightarrow> rpn \<Rightarrow> double"
  x_localtime :: "nat \<Rightarrow> tm"

text \<open>
  The state outside the stack: the store of the allocated nodes, the next address
  \<^verbatim>\<open>malloc\<close> hands out, the calls made so far (oldest first) and the number of clock
  readings so far.
\<close>

record world =
  w_heap :: "ptr \<Rightarrow> rpn option"
  w_brk :: ptr
  w_log :: "effect list"
  w_clock :: nat

subsection \<open>The operators\<close>

text \<open>
  Each \<^verbatim>\<open>rpn_do_*\<close> function takes what it reads and returns its return code with
  what it may have written: the stack, for the operators with a state the node
  \<^verbatim>\<open>*me\<close>, for the operators with a timer the calls they make. The operators on two
  values write the result to the cell below the top and drop the top.
\<close>

definition rpn_do_plus :: "stack \<Rightarrow> int \<times> stack" where
  "rpn_do_plus st =
     (if st_n st < 2 then (- 1, st)
      else (0, st\<lparr>st_v := (st_v st)[st_n st - 2 :=
                     d_add (st_v st ! (st_n st - 2)) (st_v st ! (st_n st - 1))],
                 st_n := st_n st - 1\<rparr>))"

definition rpn_do_minus :: "stack \<Rightarrow> int \<times> stack" where
  "rpn_do_minus st =
     (if st_n st < 2 then (- 1, st)
      else (0, st\<lparr>st_v := (st_v st)[st_n st - 2 :=
                     d_sub (st_v st ! (st_n st - 2)) (st_v st ! (st_n st - 1))],
                 st_n := st_n st - 1\<rparr>))"

definition rpn_do_mul :: "stack \<Rightarrow> int \<times> stack" where
  "rpn_do_mul st =
     (if st_n st < 2 then (- 1, st)
      else (0, st\<lparr>st_v := (st_v st)[st_n st - 2 :=
                     d_mul (st_v st ! (st_n st - 2)) (st_v st ! (st_n st - 1))],
                 st_n := st_n st - 1\<rparr>))"

definition rpn_do_div :: "stack \<Rightarrow> int \<times> stack" where
  "rpn_do_div st =
     (if st_n st < 2 then (- 1, st)
      else (0, st\<lparr>st_v := (st_v st)[st_n st - 2 :=
                     d_div (st_v st ! (st_n st - 2)) (st_v st ! (st_n st - 1))],
                 st_n := st_n st - 1\<rparr>))"

definition rpn_do_pow :: "ext \<Rightarrow> stack \<Rightarrow> int \<times> stack" where
  "rpn_do_pow x st =
     (if st_n st < 2 then (- 1, st)
      else (0, st\<lparr>st_v := (st_v st)[st_n st - 2 :=
                     x_pow x (st_v st ! (st_n st - 2)) (st_v st ! (st_n st - 1))],
                 st_n := st_n st - 1\<rparr>))"

definition rpn_do_limit :: "stack \<Rightarrow> int \<times> stack" where
  "rpn_do_limit st =
     (if st_n st < 3 then (- 1, st)
      else (1, st\<lparr>st_v :=
                   (if d_lt (st_v st ! (st_n st - 3)) (st_v st ! (st_n st - 2))
                    then (st_v st)[st_n st - 3 := (st_v st ! (st_n st - 2))]
                    else if d_gt (st_v st ! (st_n st - 3)) (st_v st ! (st_n st - 1))
                    then (st_v st)[st_n st - 3 := (st_v st ! (st_n st - 1))]
                    else st_v st),
                 st_n := st_n st - 2\<rparr>))"

definition rpn_do_inrange :: "stack \<Rightarrow> int \<times> stack" where
  "rpn_do_inrange st =
     (if st_n st < 3 then (- 1, st)
      else (1, st\<lparr>st_v :=
                   (if d_lt (st_v st ! (st_n st - 2)) (st_v st ! (st_n st - 1))
                    then (st_v st)[st_n st - 3 := d_of_int (c_bool
                           (d_ge (st_v st ! (st_n st - 3)) (st_v st ! (st_n st - 2)) \<and>
                            d_le (st_v st ! (st_n st - 3)) (st_v st ! (st_n st - 1))))]
                    else (st_v st)[st_n st - 3 := d_of_int (c_bool
                           (d_ge (st_v st ! (st_n st - 3)) (st_v st ! (st_n st - 2)) \<or>
                            d_le (st_v st ! (st_n st - 3)) (st_v st ! (st_n st - 1))))]),
                 st_n := st_n st - 2\<rparr>))"

definition rpn_do_bitand :: "stack \<Rightarrow> int \<times> stack" where
  "rpn_do_bitand st =
     (if st_n st < 2 then (- 1, st)
      else (0, st\<lparr>st_v := (st_v st)[st_n st - 2 :=
                     d_of_int (c_int (st_v st ! (st_n st - 2)) AND c_int (st_v st ! (st_n st - 1)))],
                 st_n := st_n st - 1\<rparr>))"

definition rpn_do_bitor :: "stack \<Rightarrow> int \<times> stack" where
  "rpn_do_bitor st =
     (if st_n st < 2 then (- 1, st)
      else (0, st\<lparr>st_v := (st_v st)[st_n st - 2 :=
                     d_of_int (c_int (st_v st ! (st_n st - 2)) OR c_int (st_v st ! (st_n st - 1)))],
                 st_n := st_n st - 1\<rparr>))"

definition rpn_do_bitxor :: "stack \<Rightarrow> int \<times> stack" where
  "rpn_do_bitxor st =
     (if st_n st < 2 then (- 1, st)
      else (0, st\<lparr>st_v := (st_v st)[st_n st - 2 :=
                     d_of_int (c_int (st_v st ! (st_n st - 2)) XOR c_int (st_v st ! (st_n st - 1)))],
                 st_n := st_n st - 1\<rparr>))"

definition rpn_do_bitinv :: "stack \<Rightarrow> int \<times> stack" where
  "rpn_do_bitinv st =
     (if st_n st < 1 then (- 1, st)
      else (0, st\<lparr>st_v := (st_v st)[st_n st - 1 := d_of_int (NOT (c_int (st_v st ! (st_n st - 1))))]\<rparr>))"

definition rpn_do_booland :: "stack \<Rightarrow> int \<times> stack" where
  "rpn_do_booland st =
     (if st_n st < 2 then (- 1, st)
      else (0, st\<lparr>st_v := (st_v st)[st_n st - 2 :=
                     d_of_int (c_bool (c_int (st_v st ! (st_n st - 2)) \<noteq> 0 \<and> c_int (st_v st ! (st_n st - 1)) \<noteq> 0))],
                 st_n := st_n st - 1\<rparr>))"

definition rpn_do_boolor :: "stack \<Rightarrow> int \<times> stack" where
  "rpn_do_boolor st =
     (if st_n st < 2 then (- 1, st)
      else (0, st\<lparr>st_v := (st_v st)[st_n st - 2 :=
                     d_of_int (c_bool (c_int (st_v st ! (st_n st - 2)) \<noteq> 0 \<or> c_int (st_v st ! (st_n st - 1)) \<noteq> 0))],
                 st_n := st_n st - 1\<rparr>))"

definition rpn_do_boolnot :: "stack \<Rightarrow> int \<times> stack" where
  "rpn_do_boolnot st =
     (if st_n st < 1 then (- 1, st)
      else (0, st\<lparr>st_v := (st_v st)[st_n st - 1 :=
                     d_of_int (c_bool (c_int (st_v st ! (st_n st - 1)) = 0))]\<rparr>))"

text \<open>The comparisons cast their right operand to \<^verbatim>\<open>int\<close>, which is converted back.\<close>

definition rpn_do_lt :: "stack \<Rightarrow> int \<times> stack" where
  "rpn_do_lt st =
     (if st_n st < 2 then (- 1, st)
      else (0, st\<lparr>st_v := (st_v st)[st_n st - 2 :=
                     d_of_int (c_bool (d_lt (st_v st ! (st_n st - 2)) (d_of_int (c_int (st_v st ! (st_n st - 1))))))],
                 st_n := st_n st - 1\<rparr>))"

definition rpn_do_gt :: "stack \<Rightarrow> int \<times> stack" where
  "rpn_do_gt st =
     (if st_n st < 2 then (- 1, st)
      else (0, st\<lparr>st_v := (st_v st)[st_n st - 2 :=
                     d_of_int (c_bool (d_gt (st_v st ! (st_n st - 2)) (d_of_int (c_int (st_v st ! (st_n st - 1))))))],
                 st_n := st_n st - 1\<rparr>))"

definition rpn_do_const :: "stack \<Rightarrow> rpn \<Rightarrow> int \<times> stack" where
  "rpn_do_const st me = (0, rpn_push st (r_value me))"

definition rpn_do_env :: "ext \<Rightarrow> stack \<Rightarrow> ptr \<Rightarrow> rpn \<Rightarrow> int \<times> stack" where
  "rpn_do_env x st p me = (0, rpn_push st (x_lookup_env x (r_topic me) p me))"

definition rpn_do_dup :: "stack \<Rightarrow> int \<times> stack" where
  "rpn_do_dup st =
     (if st_n st < 1 then (- 1, st)
      else (0, rpn_push st (st_v st ! (st_n st - 1))))"

definition rpn_do_swap :: "stack \<Rightarrow> int \<times> stack" where
  "rpn_do_swap st =
     (if st_n st < 2 then (- 1, st)
      else (let tmp = (st_v st ! (st_n st - 2))
            in (0, st\<lparr>st_v := ((st_v st)[st_n st - 2 := (st_v st ! (st_n st - 1))])
                                 [st_n st - 1 := tmp]\<rparr>)))"

text \<open>
  The timer functions. \<open>p\<close> is the address of the node \<^verbatim>\<open>*me\<close>: it is the argument
  the timer is registered with. \<^verbatim>\<open>on_delay\<close> is the callback of the timer.
\<close>

definition on_delay :: "rpn \<Rightarrow> rpn \<times> effect list" where
  "on_delay me = (me\<lparr>r_cookie := r_cookie me XOR 2\<rparr>, [Call_rpn_run_again (r_dat me)])"

definition rpn_do_offdelay :: "stack \<Rightarrow> ptr \<Rightarrow> rpn \<Rightarrow> int \<times> stack \<times> rpn \<times> effect list" where
  "rpn_do_offdelay st p me =
     (if st_n st < 2 then (- 1, st, me, [])
      else
        (let inval = c_int (st_v st ! (st_n st - 2));
             (me1, calls) =
               (if inval = 0 \<and> r_cookie me AND 1 \<noteq> 0
                then (me, [Libt_add_timeout (st_v st ! (st_n st - 1)) On_delay p])
                else if inval \<noteq> 0 \<and> r_cookie me AND 1 = 0
                then (me\<lparr>r_cookie := r_cookie me OR 2\<rparr>, [Libt_remove_timeout On_delay p])
                else (me, []));
             me2 = me1\<lparr>r_cookie := (r_cookie me1 AND NOT 1) OR c_bool (inval \<noteq> 0)\<rparr>
         in (0,
             st\<lparr>st_v := (st_v st)[st_n st - 2 := d_of_int (c_bool (r_cookie me2 AND 2 \<noteq> 0))],
                st_n := st_n st - 1\<rparr>,
             me2, calls)))"

definition rpn_do_ondelay :: "stack \<Rightarrow> ptr \<Rightarrow> rpn \<Rightarrow> int \<times> stack \<times> rpn \<times> effect list" where
  "rpn_do_ondelay st p me =
     (if st_n st < 2 then (- 1, st, me, [])
      else
        (let inval = c_int (st_v st ! (st_n st - 2));
             (me1, calls) =
               (if inval \<noteq> 0 \<and> r_cookie me AND 1 = 0
                then (me, [Libt_add_timeout (st_v st ! (st_n st - 1)) On_delay p])
                else if inval = 0 \<and> r_cookie me AND 1 \<noteq> 0
                then (me\<lparr>r_cookie := r_cookie me AND NOT 2\<rparr>, [Libt_remove_timeout On_delay p])
                else (me, []));
             me2 = me1\<lparr>r_cookie := (r_cookie me1 AND NOT 1) OR c_bool (inval \<noteq> 0)\<rparr>
         in (0,
             st\<lparr>st_v := (st_v st)[st_n st - 2 := d_of_int (c_bool (r_cookie me2 AND 2 \<noteq> 0))],
                st_n := st_n st - 1\<rparr>,
             me2, calls)))"

definition rpn_do_pulse :: "stack \<Rightarrow> ptr \<Rightarrow> rpn \<Rightarrow> int \<times> stack \<times> rpn \<times> effect list" where
  "rpn_do_pulse st p me =
     (if st_n st < 2 then (- 1, st, me, [])
      else
        (let inval = c_int (st_v st ! (st_n st - 2));
             (me1, calls) =
               (if inval \<noteq> 0 \<and> r_cookie me AND 1 = 0
                then (me\<lparr>r_cookie := r_cookie me OR 2\<rparr>,
                      [Libt_add_timeout (st_v st ! (st_n st - 1)) On_delay p])
                else if inval = 0 \<and> r_cookie me AND 1 \<noteq> 0
                then (me, [Libt_remove_timeout On_delay p])
                else (me, []));
             me2 = me1\<lparr>r_cookie := (r_cookie me1 AND NOT 1) OR c_bool (inval \<noteq> 0)\<rparr>
         in (0,
             st\<lparr>st_v := (st_v st)[st_n st - 2 := d_of_int (c_bool (r_cookie me2 AND 2 \<noteq> 0))],
                st_n := st_n st - 1\<rparr>,
             me2, calls)))"

text \<open>The event functions keep the input they saw last in the cookie.\<close>

definition rpn_do_edge :: "stack \<Rightarrow> rpn \<Rightarrow> int \<times> stack \<times> rpn" where
  "rpn_do_edge st me =
     (if st_n st < 1 then (- 1, st, me)
      else
        (let inval = c_int (st_v st ! (st_n st - 1))
         in (0,
             st\<lparr>st_v := (st_v st)[st_n st - 1 := d_of_int (c_bool (inval \<noteq> r_cookie me))]\<rparr>,
             me\<lparr>r_cookie := inval\<rparr>)))"

definition rpn_do_rising :: "stack \<Rightarrow> rpn \<Rightarrow> int \<times> stack \<times> rpn" where
  "rpn_do_rising st me =
     (if st_n st < 1 then (- 1, st, me)
      else
        (let inval = c_int (st_v st ! (st_n st - 1))
         in (0,
             st\<lparr>st_v := (st_v st)[st_n st - 1 :=
                        d_of_int (c_bool (inval \<noteq> 0 \<and> r_cookie me = 0))]\<rparr>,
             me\<lparr>r_cookie := inval\<rparr>)))"

definition rpn_do_falling :: "stack \<Rightarrow> rpn \<Rightarrow> int \<times> stack \<times> rpn" where
  "rpn_do_falling st me =
     (if st_n st < 1 then (- 1, st, me)
      else
        (let inval = c_int (st_v st ! (st_n st - 1))
         in (0,
             st\<lparr>st_v := (st_v st)[st_n st - 1 :=
                        d_of_int (c_bool (inval = 0 \<and> r_cookie me \<noteq> 0))]\<rparr>,
             me\<lparr>r_cookie := inval\<rparr>)))"

text \<open>The date and time functions get the broken-down time that \<^verbatim>\<open>localtime\<close> returned.\<close>

definition next_minute :: "tm \<Rightarrow> int" where
  "next_minute t =
     (let nxt = 60 - tm_sec t
      in if nxt \<le> 0 \<or> nxt > 60 then 60 else nxt)"

definition rpn_do_timeofday :: "tm \<Rightarrow> stack \<Rightarrow> rpn \<Rightarrow> int \<times> stack \<times> effect list" where
  "rpn_do_timeofday t st me =
     (0,
      rpn_push st (d_add (d_add (d_of_int (tm_hour t)) (d_div (d_of_int (tm_min t)) (Num 60)))
                         (d_div (d_of_int (tm_sec t)) (Num 3600))),
      [Libt_add_timeout (d_of_int (next_minute t)) Rpn_run_again (r_dat me)])"

definition rpn_do_dayofweek :: "tm \<Rightarrow> stack \<Rightarrow> rpn \<Rightarrow> int \<times> stack \<times> effect list" where
  "rpn_do_dayofweek t st me =
     (0,
      rpn_push st (d_of_int (if tm_wday t \<noteq> 0 then tm_wday t else 7)),
      [Libt_add_timeout (d_of_int (next_minute t)) Rpn_run_again (r_dat me)])"

subsection \<open>Running a chain\<close>

definition set_node :: "world \<Rightarrow> ptr \<Rightarrow> rpn \<Rightarrow> world" where
  "set_node w p me = w\<lparr>w_heap := (w_heap w)(p \<mapsto> me)\<rparr>"

definition emit :: "world \<Rightarrow> effect list \<Rightarrow> world" where
  "emit w calls = w\<lparr>w_log := w_log w @ calls\<rparr>"

text \<open>
  The call \<^verbatim>\<open>rpn->run(st, rpn)\<close> through the function pointer, for the node \<open>me\<close> stored
  at \<open>p\<close>: what the function returns is written back to the store and to the log.
\<close>

fun rpn_call :: "ext \<Rightarrow> opcode \<Rightarrow> stack \<Rightarrow> ptr \<Rightarrow> rpn \<Rightarrow> world \<Rightarrow> int \<times> stack \<times> world" where
  "rpn_call x Do_plus st p me w =
     (let (ret, st') = rpn_do_plus st in (ret, st', w))"
| "rpn_call x Do_minus st p me w =
     (let (ret, st') = rpn_do_minus st in (ret, st', w))"
| "rpn_call x Do_mul st p me w =
     (let (ret, st') = rpn_do_mul st in (ret, st', w))"
| "rpn_call x Do_div st p me w =
     (let (ret, st') = rpn_do_div st in (ret, st', w))"
| "rpn_call x Do_pow st p me w =
     (let (ret, st') = rpn_do_pow x st in (ret, st', w))"
| "rpn_call x Do_limit st p me w =
     (let (ret, st') = rpn_do_limit st in (ret, st', w))"
| "rpn_call x Do_inrange st p me w =
     (let (ret, st') = rpn_do_inrange st in (ret, st', w))"
| "rpn_call x Do_bitand st p me w =
     (let (ret, st') = rpn_do_bitand st in (ret, st', w))"
| "rpn_call x Do_bitor st p me w =
     (let (ret, st') = rpn_do_bitor st in (ret, st', w))"
| "rpn_call x Do_bitxor st p me w =
     (let (ret, st') = rpn_do_bitxor st in (ret, st', w))"
| "rpn_call x Do_bitinv st p me w =
     (let (ret, st') = rpn_do_bitinv st in (ret, st', w))"
| "rpn_call x Do_booland st p me w =
     (let (ret, st') = rpn_do_booland st in (ret, st', w))"
| "rpn_call x Do_boolor st p me w =
     (let (ret, st') = rpn_do_boolor st in (ret, st', w))"
| "rpn_call x Do_boolnot st p me w =
     (let (ret, st') = rpn_do_boolnot st in (ret, st', w))"
| "rpn_call x Do_lt st p me w =
     (let (ret, st') = rpn_do_lt st in (ret, st', w))"
| "rpn_call x Do_gt st p me w =
     (let (ret, st') = rpn_do_gt st in (ret, st', w))"
| "rpn_call x Do_const st p me w =
     (let (ret, st') = rpn_do_const st me in (ret, st', w))"
| "rpn_call x Do_env st p me w =
     (let (ret, st') = rpn_do_env x st p me in (ret, st', w))"
| "rpn_call x Do_dup st p me w =
     (let (ret, st') = rpn_do_dup st in (ret, st', w))"
| "rpn_call x Do_swap st p me w =
     (let (ret, st') = rpn_do_swap st in (ret, st', w))"
| "rpn_call x Do_offdelay st p me w =
     (let (ret, st', me', calls) = rpn_do_offdelay st p me
      in (ret, st', emit (set_node w p me') calls))"
| "rpn_call x Do_ondelay st p me w =
     (let (ret, st', me', calls) = rpn_do_ondelay st p me
      in (ret, st', emit (set_node w p me') calls))"
| "rpn_call x Do_pulse st p me w =
     (let (ret, st', me', calls) = rpn_do_pulse st p me
      in (ret, st', emit (set_node w p me') calls))"
| "rpn_call x Do_edge st p me w =
     (let (ret, st', me') = rpn_do_edge st me in (ret, st', set_node w p me'))"
| "rpn_call x Do_rising st p me w =
     (let (ret, st', me') = rpn_do_rising st me in (ret, st', set_node w p me'))"
| "rpn_call x Do_falling st p me w =
     (let (ret, st', me') = rpn_do_falling st me in (ret, st', set_node w p me'))"
| "rpn_call x Do_timeofday st p me w =
     (let (ret, st', calls) = rpn_do_timeofday (x_localtime x (w_clock w)) st me
      in (ret, st', emit (w\<lparr>w_clock := w_clock w + 1\<rparr>) calls))"
| "rpn_call x Do_dayofweek st p me w =
     (let (ret, st', calls) = rpn_do_dayofweek (x_localtime x (w_clock w)) st me
      in (ret, st', emit (w\<lparr>w_clock := w_clock w + 1\<rparr>) calls))"

text \<open>
  \<^verbatim>\<open>rpn_run\<close> follows the \<^verbatim>\<open>next\<close> pointers, which need not end: the result \<open>None\<close>
  stands for a run that does not return (a cyclic chain) or that leaves the defined
  behaviour of C (a pointer to no node, a node without a function).
\<close>

partial_function (option) rpn_run ::
  "ext \<Rightarrow> stack \<Rightarrow> ptr option \<Rightarrow> world \<Rightarrow> (int \<times> stack \<times> world) option" where
  "rpn_run x st rpn w =
     (case rpn of
        None \<Rightarrow> Some (0, st, w)
      | Some p \<Rightarrow>
          (case w_heap w p of
             None \<Rightarrow> None
           | Some me \<Rightarrow>
               (case r_run me of
                  None \<Rightarrow> None
                | Some f \<Rightarrow>
                    (case rpn_call x f st p me w of
                       (ret, st', w') \<Rightarrow>
                         if ret < 0 then Some (ret, st', w')
                         else (case w_heap w' p of
                                 None \<Rightarrow> None
                               | Some me' \<Rightarrow> rpn_run x st' (r_next me') w')))))"

declare rpn_run.simps [code]

text \<open>The timer callback \<^verbatim>\<open>on_delay\<close>, called by the scheduler with the address of a node.\<close>

definition call_on_delay :: "ptr \<Rightarrow> world \<Rightarrow> world option" where
  "call_on_delay p w =
     (case w_heap w p of
        None \<Rightarrow> None
      | Some me \<Rightarrow> (let (me', calls) = on_delay me in Some (emit (set_node w p me') calls)))"

subsection \<open>\<^verbatim>\<open>strtod\<close> and \<^verbatim>\<open>strtok\<close> of the C library\<close>

text \<open>
  \<^verbatim>\<open>strtod\<close> as the C standard describes it for the C locale: white space, a sign,
  then an infinity, a NaN, a hexadecimal or a decimal number, the longest that can be
  read. It returns the value and the rest of the string (\<^verbatim>\<open>*endp\<close>); when nothing can
  be read the value is zero and the rest is the whole string.
\<close>

definition is_space :: "char \<Rightarrow> bool" where
  "is_space c = (c \<in> set [CHR '' '', CHR 0x09, CHR 0x0A, CHR 0x0B, CHR 0x0C, CHR 0x0D])"

definition is_digit :: "char \<Rightarrow> bool" where
  "is_digit c = (c \<in> set ''0123456789'')"

definition is_xdigit :: "char \<Rightarrow> bool" where
  "is_xdigit c = (c \<in> set ''0123456789abcdefABCDEF'')"

definition lower :: "char \<Rightarrow> char" where
  "lower c = (if 65 \<le> (of_char c :: nat) \<and> (of_char c :: nat) \<le> 90
              then char_of ((of_char c :: nat) + 32) else c)"

definition digit_val :: "char \<Rightarrow> nat" where
  "digit_val c =
     (if is_digit c then of_char c - 48 else of_char (lower c) - 87)"

definition num_value :: "nat \<Rightarrow> string \<Rightarrow> nat" where
  "num_value base cs = foldl (\<lambda>a c. base * a + digit_val c) 0 cs"

definition scale :: "real \<Rightarrow> real \<Rightarrow> int \<Rightarrow> real" where
  "scale m base e = (if 0 \<le> e then m * base ^ nat e else m / base ^ nat (- e))"

text \<open>
  An exponent: one of the letters \<open>marks\<close>, a sign, digits. Without a digit the
  letter is not part of the number.
\<close>

definition strtod_exponent :: "string \<Rightarrow> string \<Rightarrow> int \<times> string" where
  "strtod_exponent marks cs =
     (case cs of
        [] \<Rightarrow> (0, cs)
      | c # r \<Rightarrow>
          if c \<notin> set marks then (0, cs)
          else
            (let (neg, r1) =
                   (case r of
                      [] \<Rightarrow> (False, r)
                    | d # r' \<Rightarrow>
                        if d = CHR ''-'' then (True, r')
                        else if d = CHR ''+'' then (False, r') else (False, r));
                 ds = takeWhile is_digit r1
             in if ds = [] then (0, cs)
                else (if neg then - int (num_value 10 ds) else int (num_value 10 ds),
                      dropWhile is_digit r1)))"

text \<open>Digits with at most one radix point among them, and at least one digit.\<close>

definition strtod_mantissa ::
  "(char \<Rightarrow> bool) \<Rightarrow> nat \<Rightarrow> string \<Rightarrow> (real \<times> string) option" where
  "strtod_mantissa isd base cs =
     (let ip = takeWhile isd cs;
          r1 = dropWhile isd cs;
          (fp, r2) =
            (case r1 of
               [] \<Rightarrow> ([], r1)
             | c # r \<Rightarrow>
                 if c = CHR ''.'' then (takeWhile isd r, dropWhile isd r) else ([], r1))
      in if ip = [] \<and> fp = [] then None
         else Some (real (num_value base (ip @ fp)) / real base ^ length fp, r2))"

definition strtod_dec :: "string \<Rightarrow> (real \<times> string) option" where
  "strtod_dec cs =
     (case strtod_mantissa is_digit 10 cs of
        None \<Rightarrow> None
      | Some (m, r) \<Rightarrow> (let (e, r') = strtod_exponent ''eE'' r in Some (scale m 10 e, r')))"

definition strtod_hex :: "string \<Rightarrow> (real \<times> string) option" where
  "strtod_hex cs =
     (case cs of
        z # xc # r0 \<Rightarrow>
          if z = CHR ''0'' \<and> lower xc = CHR ''x''
          then (case strtod_mantissa is_xdigit 16 r0 of
                  None \<Rightarrow> None
                | Some (m, r) \<Rightarrow>
                    (let (e, r') = strtod_exponent ''pP'' r in Some (scale m 2 e, r')))
          else None
      | _ \<Rightarrow> None)"

definition is_nchar :: "char \<Rightarrow> bool" where
  "is_nchar c = (is_digit c \<or> c = CHR ''_'' \<or> lower c \<in> set ''abcdefghijklmnopqrstuvwxyz'')"

definition strtod_special :: "string \<Rightarrow> (double \<times> string) option" where
  "strtod_special cs =
     (if map lower (take 8 cs) = ''infinity'' then Some (PInf, drop 8 cs)
      else if map lower (take 3 cs) = ''inf'' then Some (PInf, drop 3 cs)
      else if map lower (take 3 cs) = ''nan''
      then (case drop 3 cs of
              c # r \<Rightarrow>
                if c = CHR ''('' \<and> take 1 (dropWhile is_nchar r) = '')''
                then Some (NaN, drop 1 (dropWhile is_nchar r))
                else Some (NaN, drop 3 cs)
            | [] \<Rightarrow> Some (NaN, []))
      else None)"

definition strtod :: "string \<Rightarrow> double \<times> string" where
  "strtod nptr =
     (let s0 = dropWhile is_space nptr;
          (neg, s1) =
            (case s0 of
               [] \<Rightarrow> (False, s0)
             | c # r \<Rightarrow>
                 if c = CHR ''-'' then (True, r)
                 else if c = CHR ''+'' then (False, r) else (False, s0));
          res =
            (case strtod_special s1 of
               Some a \<Rightarrow> Some a
             | None \<Rightarrow>
                 (case strtod_hex s1 of
                    Some (a, e) \<Rightarrow> Some (Num a, e)
                  | None \<Rightarrow>
                      (case strtod_dec s1 of
                         Some (a, e) \<Rightarrow> Some (Num a, e)
                       | None \<Rightarrow> None)))
      in case res of
           None \<Rightarrow> (Num 0, nptr)
         | Some (a, e) \<Rightarrow> (if neg then d_neg a else a, e))"

text \<open>
  \<^verbatim>\<open>strtok\<close>: the next token of \<open>cs\<close> and what is left behind it, or \<open>None\<close> when only
  delimiters are left. \<open>strtok_all\<close> is the sequence of tokens that the loop
  \<^verbatim>\<open>for (tok = strtok(savedstr, " \t"); tok; tok = strtok(NULL, " \t"))\<close> visits.
\<close>

definition strtok :: "string \<Rightarrow> string \<Rightarrow> (string \<times> string) option" where
  "strtok cs delim =
     (let cs1 = dropWhile (\<lambda>c. c \<in> set delim) cs
      in if cs1 = [] then None
         else Some (takeWhile (\<lambda>c. c \<notin> set delim) cs1,
                    drop 1 (dropWhile (\<lambda>c. c \<notin> set delim) cs1)))"

function strtok_all :: "string \<Rightarrow> string \<Rightarrow> string list" where
  "strtok_all cs delim =
     (case strtok cs delim of
        None \<Rightarrow> []
      | Some (tok, rest) \<Rightarrow> tok # strtok_all rest delim)"
  by pat_completeness auto
termination
proof (relation "measure (\<lambda>(cs, delim). length cs)")
  show "wf (measure (\<lambda>(cs, delim). length cs))"
    by simp
next
  fix cs delim :: string and x2 tok rest
  assume a: "strtok cs delim = Some x2" "(tok, rest) = x2"
  define cs1 where "cs1 = dropWhile (\<lambda>c. c \<in> set delim) cs"
  define cs2 where "cs2 = dropWhile (\<lambda>c. c \<notin> set delim) cs1"
  have "strtok cs delim = (if cs1 = [] then None
      else Some (takeWhile (\<lambda>c. c \<notin> set delim) cs1, drop 1 cs2))"
    unfolding strtok_def cs1_def cs2_def Let_def ..
  with a have ne: "cs1 \<noteq> []" and r: "rest = drop 1 cs2"
    by (auto split: if_splits)
  have l2: "length cs2 \<le> length cs1"
    unfolding cs2_def by (rule length_dropWhile_le)
  have l1: "length cs1 \<le> length cs"
    unfolding cs1_def by (rule length_dropWhile_le)
  have l0: "0 < length cs1"
    using ne by simp
  have "length rest = length cs2 - 1"
    unfolding r by simp
  with l0 l1 l2 have "length rest < length cs"
    by linarith
  then show "((rest, delim), (cs, delim)) \<in> measure (\<lambda>(cs, delim). length cs)"
    by simp
qed

text \<open>The equation of \<open>strtok_all\<close> is unfolded by hand or by evaluation only.\<close>

declare strtok_all.simps [simp del]

subsection \<open>The parser\<close>

text \<open>The table \<^verbatim>\<open>lookups\<close> of the keywords, and its linear search.\<close>

definition lookups :: "(string \<times> opcode) list" where
  "lookups =
     [(''+'', Do_plus),
      (''-'', Do_minus),
      (''*'', Do_mul),
      (''/'', Do_div),
      (''**'', Do_pow),
      (''&'', Do_bitand),
      (''|'', Do_bitor),
      (''^'', Do_bitxor),
      (''~'', Do_bitinv),
      (''&&'', Do_booland),
      (''||'', Do_boolor),
      (''!'', Do_boolnot),
      (''<'', Do_lt),
      (''>'', Do_gt),
      (''dup'', Do_dup),
      (''swap'', Do_swap),
      (''limit'', Do_limit),
      (''inrange'', Do_inrange),
      (''ondelay'', Do_ondelay),
      (''offdelay'', Do_offdelay),
      (''pulse'', Do_pulse),
      (''edge'', Do_edge),
      (''rising'', Do_rising),
      (''falling'', Do_falling),
      (''changed'', Do_edge),
      (''pushed'', Do_rising),
      (''timeofday'', Do_timeofday),
      (''dayofweek'', Do_dayofweek)]"

primrec lookup_from :: "(string \<times> opcode) list \<Rightarrow> string \<Rightarrow> opcode option" where
  "lookup_from [] tok = None"
| "lookup_from (l # ls) tok = (if fst l = tok then Some (snd l) else lookup_from ls tok)"

definition do_lookup :: "string \<Rightarrow> opcode option" where
  "do_lookup tok = lookup_from lookups tok"

definition digits :: string where
  "digits = ''0123456789''"

text \<open>
  The test for a number: a digit first, or a sign with a digit behind it. (For the
  empty string, which \<^verbatim>\<open>strtok\<close> never returns, \<^verbatim>\<open>strchr\<close> finds the terminator.)
\<close>

definition is_literal :: "string \<Rightarrow> bool" where
  "is_literal tok =
     (case tok of
        [] \<Rightarrow> True
      | c # r \<Rightarrow>
          c \<in> set digits \<or> (r \<noteq> [] \<and> c \<in> set ''+-'' \<and> hd r \<in> set digits))"

text \<open>
  The value of a number: \<^verbatim>\<open>strtod\<close>, then behind a colon, an \<^verbatim>\<open>h\<close> or an
  apostrophe a number of sixtieths, then behind a colon, an \<^verbatim>\<open>m\<close> or a double quote
  a number of 3600ths. The second test does not depend on the first.
\<close>

definition sep1 :: string where
  "sep1 = [CHR '':'', CHR ''h'', CHR 0x27]"

definition sep2 :: string where
  "sep2 = [CHR '':'', CHR ''m'', CHR 0x22]"

definition rpn_literal :: "string \<Rightarrow> double" where
  "rpn_literal tok =
     (let (v0, e0) = strtod tok;
          (v1, e1) =
            (case e0 of
               [] \<Rightarrow> (v0, e0)
             | c # r \<Rightarrow>
                 if c \<in> set sep1
                 then (let (a, e) = strtod r in (d_add v0 (d_div a (Num 60)), e))
                 else (v0, e0));
          (v2, e2) =
            (case e1 of
               [] \<Rightarrow> (v1, e1)
             | c # r \<Rightarrow>
                 if c \<in> set sep2
                 then (let (a, e) = strtod r in (d_add v1 (d_div a (Num 3600)), e))
                 else (v1, e1))
      in v2)"

text \<open>The test for \<^verbatim>\<open>${name}\<close> and \<^verbatim>\<open>${name,options}\<close>, and the split at the last comma.\<close>

definition is_env :: "string \<Rightarrow> bool" where
  "is_env tok =
     (case tok of
        c0 # c1 # r \<Rightarrow> c0 = CHR ''$'' \<and> c1 = CHR ''{'' \<and> last tok = CHR ''}''
      | _ \<Rightarrow> False)"

definition env_topic :: "string \<Rightarrow> string \<times> string option" where
  "env_topic tok =
     (let body = butlast (drop 2 tok)
      in if CHR '','' \<in> set body
         then (rev (drop 1 (dropWhile (\<lambda>c. c \<noteq> CHR '','') (rev body))),
               Some (rev (takeWhile (\<lambda>c. c \<noteq> CHR '','') (rev body))))
         else (body, None))"

text \<open>\<^verbatim>\<open>rpn_create\<close>: a new node, all of its bytes zero.\<close>

definition rpn_zero :: rpn where
  "rpn_zero = \<lparr>r_next = None, r_run = None, r_value = Num 0, r_topic = None,
               r_options = None, r_cookie = 0, r_dat = 0\<rparr>"

definition rpn_create :: "world \<Rightarrow> ptr \<times> world" where
  "rpn_create w = (w_brk w, (set_node w (w_brk w) rpn_zero)\<lparr>w_brk := w_brk w + 1\<rparr>)"

definition rpn_free :: "ptr \<Rightarrow> world \<Rightarrow> world" where
  "rpn_free p w = w\<lparr>w_heap := (w_heap w)(p := None)\<rparr>"

partial_function (option) rpn_free_chain :: "ptr option \<Rightarrow> world \<Rightarrow> world option" where
  "rpn_free_chain rpn w =
     (case rpn of
        None \<Rightarrow> Some w
      | Some tmp \<Rightarrow>
          (case w_heap w tmp of
             None \<Rightarrow> None
           | Some node \<Rightarrow> rpn_free_chain (r_next node) (rpn_free tmp w)))"

declare rpn_free_chain.simps [code]

text \<open>
  The fields that the three branches of \<^verbatim>\<open>rpn_parse\<close> assign to the node they
  create, or \<open>None\<close> for an unknown token.
\<close>

definition rpn_token_node :: "string \<Rightarrow> rpn option" where
  "rpn_token_node tok =
     (if is_literal tok
      then Some (rpn_zero\<lparr>r_run := Some Do_const, r_value := rpn_literal tok\<rparr>)
      else if is_env tok
      then Some (rpn_zero\<lparr>r_run := Some Do_env, r_topic := Some (fst (env_topic tok)),
                          r_options := snd (env_topic tok)\<rparr>)
      else (case do_lookup tok of
              Some f \<Rightarrow> Some (rpn_zero\<lparr>r_run := Some f\<rparr>)
            | None \<Rightarrow> None))"

text \<open>
  The loop of \<^verbatim>\<open>rpn_parse\<close> over the tokens, with the variables \<^verbatim>\<open>root\<close> and
  \<^verbatim>\<open>last\<close>. The result is the pointer the function returns and the world it leaves;
  \<open>None\<close> is a run that leaves the defined behaviour of C.
\<close>

fun rpn_parse_loop ::
  "string list \<Rightarrow> ptr \<Rightarrow> ptr option \<Rightarrow> ptr option \<Rightarrow> world \<Rightarrow> (ptr option \<times> world) option" where
  "rpn_parse_loop [] dat root_p last_p w = Some (root_p, w)"
| "rpn_parse_loop (tok # toks) dat root_p last_p w =
     (case rpn_token_node tok of
        None \<Rightarrow>
          (case root_p of
             None \<Rightarrow> Some (None, w)
           | Some r \<Rightarrow>
               (case rpn_free_chain (Some r) w of
                  None \<Rightarrow> None
                | Some w' \<Rightarrow> Some (None, w')))
      | Some node \<Rightarrow>
          (let (rpn, w1) = rpn_create w;
               w2 = set_node w1 rpn (node\<lparr>r_dat := dat\<rparr>)
           in case last_p of
                None \<Rightarrow> rpn_parse_loop toks dat (if root_p = None then Some rpn else root_p) (Some rpn) w2
              | Some l \<Rightarrow>
                  (case w_heap w2 l of
                     None \<Rightarrow> None
                   | Some lnode \<Rightarrow>
                       rpn_parse_loop toks dat (if root_p = None then Some rpn else root_p) (Some rpn)
                         (set_node w2 l (lnode\<lparr>r_next := Some rpn\<rparr>)))))"

definition rpn_parse :: "string \<Rightarrow> ptr \<Rightarrow> world \<Rightarrow> (ptr option \<times> world) option" where
  "rpn_parse cstr dat w = rpn_parse_loop (strtok_all cstr [CHR '' '', CHR 0x09]) dat None None w"


subsection \<open>Successful prefixes of a run, and chains in the store\<close>

text \<open>
  \<open>run_prefix x st rpn w st' rpn' w'\<close>: the loop of \<^verbatim>\<open>rpn_run\<close>, started with the stack
  \<open>st\<close> at the pointer \<open>rpn\<close> in the world \<open>w\<close>, runs some nodes whose functions all
  return a value that is not negative, and stands then with the stack \<open>st'\<close> at the
  pointer \<open>rpn'\<close> in the world \<open>w'\<close>.
\<close>

inductive run_prefix ::
  "ext \<Rightarrow> stack \<Rightarrow> ptr option \<Rightarrow> world \<Rightarrow> stack \<Rightarrow> ptr option \<Rightarrow> world \<Rightarrow> bool" for x where
  run_prefix_here: "run_prefix x st rpn w st rpn w"
| run_prefix_node:
    "w_heap w p = Some me \<Longrightarrow> r_run me = Some f \<Longrightarrow> rpn_call x f st p me w = (ret, st1, w1) \<Longrightarrow>
     0 \<le> ret \<Longrightarrow> w_heap w1 p = Some me1 \<Longrightarrow> run_prefix x st1 (r_next me1) w1 st' rpn' w' \<Longrightarrow>
     run_prefix x st (Some p) w st' rpn' w'"

text \<open>
  \<open>is_chain h rpn nodes\<close>: the \<^verbatim>\<open>next\<close> pointers lead from \<open>rpn\<close> through exactly the
  nodes \<open>nodes\<close> of the store \<open>h\<close> to the null pointer.
\<close>

primrec is_chain :: "(ptr \<Rightarrow> rpn option) \<Rightarrow> ptr option \<Rightarrow> rpn list \<Rightarrow> bool" where
  "is_chain h rpn [] = (rpn = None)"
| "is_chain h rpn (node # nodes) =
     (case rpn of
        None \<Rightarrow> False
      | Some p \<Rightarrow> h p = Some node \<and> is_chain h (r_next node) nodes)"

text \<open>
  The store that holds, from the address \<open>b\<close> on, a chain of the nodes \<open>nodes\<close> of the
  owner \<open>dat\<close>, each node pointing to the next address and the last one to nothing;
  the nodes before the index \<open>i\<close> are left out (they are freed), and all other
  addresses are as in \<open>h\<close>.
\<close>

definition chain_heap ::
  "(ptr \<Rightarrow> rpn option) \<Rightarrow> ptr \<Rightarrow> ptr \<Rightarrow> rpn list \<Rightarrow> nat \<Rightarrow> ptr \<Rightarrow> rpn option" where
  "chain_heap h b dat nodes i =
     (\<lambda>a. if b + i \<le> a \<and> a < b + length nodes
          then Some ((nodes ! (a - b))\<lparr>r_next := (if a + 1 < b + length nodes then Some (a + 1) else None),
                                      r_dat := dat\<rparr>)
          else h a)"

text \<open>
  A world in which \<^verbatim>\<open>malloc\<close> can work: no node is stored at the addresses that are
  still to be handed out.
\<close>

definition world_ok :: "world \<Rightarrow> bool" where
  "world_ok w = (\<forall>a. w_brk w \<le> a \<longrightarrow> w_heap w a = None)"

text \<open>The depth of the stack that each operator asks for before it does anything.\<close>

fun min_depth :: "opcode \<Rightarrow> nat" where
  "min_depth Do_const = 0"
| "min_depth Do_env = 0"
| "min_depth Do_timeofday = 0"
| "min_depth Do_dayofweek = 0"
| "min_depth Do_bitinv = 1"
| "min_depth Do_boolnot = 1"
| "min_depth Do_dup = 1"
| "min_depth Do_edge = 1"
| "min_depth Do_rising = 1"
| "min_depth Do_falling = 1"
| "min_depth Do_limit = 3"
| "min_depth Do_inrange = 3"
| "min_depth _ = 2"

subsection \<open>Inputs for the examples\<close>

text \<open>
  A stack and a world as a program has them before its first call, and some
  surroundings: a power function for whole exponents, an environment without values,
  a clock that stands at a Sunday, 23:59:60.
\<close>

definition stack_init :: stack where
  "stack_init = \<lparr>st_v = [], st_n = 0, st_s = 0\<rparr>"

definition world_init :: world where
  "world_init = \<lparr>w_heap = (\<lambda>a. None), w_brk = 0, w_log = [], w_clock = 0\<rparr>"

definition tm_leap :: tm where
  "tm_leap = \<lparr>tm_sec = 60, tm_min = 59, tm_hour = 23, tm_wday = 0\<rparr>"

definition ext_sample :: ext where
  "ext_sample =
     \<lparr>x_pow = (\<lambda>a b. case (a, b) of (Num r, Num e) \<Rightarrow> Num (r ^ nat (trunc_real e)) | _ \<Rightarrow> NaN),
      x_lookup_env = (\<lambda>topic p me. NaN),
      x_localtime = (\<lambda>k. tm_leap)\<rparr>"

text \<open>The chain that \<^verbatim>\<open>rpn_parse\<close> builds from \<^verbatim>\<open>1 +\<close> for the owner 0 in the first world.\<close>

definition node_const_1 :: rpn where
  "node_const_1 = rpn_zero\<lparr>r_next := Some 1, r_run := Some Do_const, r_value := Num 1\<rparr>"

definition node_plus :: rpn where
  "node_plus = rpn_zero\<lparr>r_run := Some Do_plus\<rparr>"

definition chain_1_plus :: world where
  "chain_1_plus = \<lparr>w_heap = (\<lambda>a. if a = 0 then Some node_const_1
                                  else if a = 1 then Some node_plus else None),
                    w_brk = 2, w_log = [], w_clock = 0\<rparr>"

text \<open>
  Successive evaluations of one node with a state: each one resets the stack, pushes
  the next input and calls the operator; the outputs are the values on the stack
  after each call.
\<close>

fun eval_inputs ::
  "(stack \<Rightarrow> rpn \<Rightarrow> int \<times> stack \<times> rpn) \<Rightarrow> stack \<Rightarrow> rpn \<Rightarrow> double list \<Rightarrow> double list list" where
  "eval_inputs f st me [] = []"
| "eval_inputs f st me (a # as) =
     (case f (rpn_push (rpn_stack_reset st) a) me of
        (ret, st', me') \<Rightarrow> stack_vals st' # eval_inputs f st' me' as)"

subsection \<open>The timer scheduler\<close>

text \<open>
  Modelled from the spec: the timer scheduler \<^verbatim>\<open>libt\<close> (\<^verbatim>\<open>lib/libt.h\<close>), which is not
  among the sources. Its contract: timers are one-shot and keyed by the callback and
  its argument; adding a timer replaces a pending one with the same key; removing is
  a no-op when none is pending. The pending timers are a map from the key to the
  delay they were added with.
\<close>

type_synonym timers = "callback \<times> ptr \<Rightarrow> double option"

fun libt_apply :: "effect \<Rightarrow> timers \<Rightarrow> timers" where
  "libt_apply (Libt_add_timeout d cb k) t = t((cb, k) \<mapsto> d)"
| "libt_apply (Libt_remove_timeout cb k) t = t((cb, k) := None)"
| "libt_apply (Call_rpn_run_again k) t = t"

text \<open>
  What happens to one node with a timer function \<open>f\<close>, stored at \<open>p\<close>: an evaluation
  with an input and a delay on a fresh stack, or the scheduler firing the pending
  timer of the node, which removes the timer and calls \<^verbatim>\<open>on_delay\<close>. The scheduler
  fires no timer that is not pending. An evaluation puts out the values that it
  leaves on the stack.
\<close>

datatype event = Eval double double | Fire

fun timed_step ::
  "(stack \<Rightarrow> ptr \<Rightarrow> rpn \<Rightarrow> int \<times> stack \<times> rpn \<times> effect list) \<Rightarrow> ptr \<Rightarrow> event \<Rightarrow> rpn \<times> timers \<Rightarrow>
   double list \<times> rpn \<times> timers" where
  "timed_step f p (Eval a d) (me, t) =
     (case f (rpn_push (rpn_push (rpn_stack_reset stack_init) a) d) p me of
        (ret, st', me', calls) \<Rightarrow> (stack_vals st', me', fold libt_apply calls t))"
| "timed_step f p Fire (me, t) =
     (if t (On_delay, p) = None then ([], me, t)
      else (case on_delay me of
              (me', calls) \<Rightarrow> ([], me', fold libt_apply calls (t((On_delay, p) := None)))))"

fun timed_run ::
  "(stack \<Rightarrow> ptr \<Rightarrow> rpn \<Rightarrow> int \<times> stack \<times> rpn \<times> effect list) \<Rightarrow> ptr \<Rightarrow> event list \<Rightarrow> rpn \<times> timers \<Rightarrow>
   double list list \<times> rpn \<times> timers" where
  "timed_run f p [] s = ([], s)"
| "timed_run f p (e # es) s =
     (case timed_step f p e s of
        (out, s') \<Rightarrow> (case timed_run f p es s' of (outs, s'') \<Rightarrow> (out # outs, s'')))"

definition is_eval :: "event \<Rightarrow> bool" where
  "is_eval e = (case e of Eval a d \<Rightarrow> True | Fire \<Rightarrow> False)"

definition is_high :: "event \<Rightarrow> bool" where
  "is_high e = (case e of Eval a d \<Rightarrow> c_int a \<noteq> 0 | Fire \<Rightarrow> False)"

subsection \<open>Postfix evaluation, as the specification describes it\<close>





text \<open>The delay of the clock operators as the specification words it: clamped into 1..60.\<close>

definition clamp_1_60 :: "int \<Rightarrow> int" where
  "clamp_1_60 i = max 1 (min 60 i)"

subsection \<open>Compiling and running\<close>

text \<open>
  What the owner of a rule does with a source text: it compiles the text, resets the
  stack and runs the chain. The result is the return value of \<^verbatim>\<open>rpn_run\<close> with the
  values that are on the stack then; \<open>None\<close> when one of the two does not return.
\<close>

definition compile_and_run ::
  "ext \<Rightarrow> string \<Rightarrow> ptr \<Rightarrow> stack \<Rightarrow> world \<Rightarrow> (int \<times> double list) option" where
  "compile_and_run x cstr dat st w =
     (case rpn_parse cstr dat w of
        None \<Rightarrow> None
      | Some (rpn, w1) \<Rightarrow>
          (case rpn_run x (rpn_stack_reset st) rpn w1 of
             None \<Rightarrow> None
           | Some (ret, st', w2) \<Rightarrow> Some (ret, stack_vals st')))"


section \<open>Properties\<close>


subsection \<open>The stack as a list of values\<close>

lemma take_split_len:
  assumes "take n v = xs @ ys" "n \<le> length v"
  shows "n = length xs + length ys"
proof -
  have "length (take n v) = n" using assms(2) by simp
  then show ?thesis using assms(1) by simp
qed

lemma take_split_nth:
  assumes "take n v = xs @ ys" "n \<le> length v" "i < length ys"
  shows "v ! (length xs + i) = ys ! i"
proof -
  have n: "n = length xs + length ys" using assms(1,2) by (rule take_split_len)
  have "v ! (length xs + i) = take n v ! (length xs + i)"
    using n assms(3) by simp
  also have "\<dots> = ys ! i" unfolding assms(1) by simp
  finally show ?thesis .
qed

lemma take_split_prefix:
  assumes "take n v = xs @ ys" "n \<le> length v"
  shows "take (length xs) v = xs"
proof -
  have n: "n = length xs + length ys" using assms by (rule take_split_len)
  have "take (length xs) v = take (length xs) (take n v)"
    using n by (simp add: min_def)
  then show ?thesis unfolding assms(1) by simp
qed

lemma take_Suc_update:
  assumes "k < length v"
  shows "take (Suc k) (v[k := c]) = take k v @ [c]"
  using assms by (simp add: take_Suc_conv_app_nth)

lemma stack_top2:
  assumes "stack_ok st" "stack_vals st = xs @ [a, b]"
  shows "st_n st = length xs + 2"
    and "st_v st ! (st_n st - 2) = a"
    and "st_v st ! (st_n st - 1) = b"
    and "take (length xs) (st_v st) = xs"
    and "st_n st \<le> length (st_v st)"
proof -
  from assms have t: "take (st_n st) (st_v st) = xs @ [a, b]" and le: "st_n st \<le> length (st_v st)"
    by (simp_all add: stack_ok_def stack_vals_def)
  show n: "st_n st = length xs + 2" using take_split_len[OF t le] by simp
  show "st_v st ! (st_n st - 2) = a" using take_split_nth[OF t le, of 0] n by simp
  show "st_v st ! (st_n st - 1) = b" using take_split_nth[OF t le, of 1] n by simp
  show "take (length xs) (st_v st) = xs" using take_split_prefix[OF t le] .
  show "st_n st \<le> length (st_v st)" by (rule le)
qed

lemma stack_binop_result:
  assumes "stack_ok st" "stack_vals st = xs @ [a, b]"
  shows "stack_vals (st\<lparr>st_v := (st_v st)[st_n st - 2 := c], st_n := st_n st - 1\<rparr>) = xs @ [c]"
    and "stack_ok (st\<lparr>st_v := (st_v st)[st_n st - 2 := c], st_n := st_n st - 1\<rparr>)"
proof -
  note f = stack_top2[OF assms]
  have k: "length xs < length (st_v st)" using f(1,5) by simp
  have "take (Suc (length xs)) ((st_v st)[length xs := c]) = take (length xs) (st_v st) @ [c]"
    using k by (rule take_Suc_update)
  then show "stack_vals (st\<lparr>st_v := (st_v st)[st_n st - 2 := c], st_n := st_n st - 1\<rparr>) = xs @ [c]"
    using f(1,4) by (simp add: stack_vals_def)
  show "stack_ok (st\<lparr>st_v := (st_v st)[st_n st - 2 := c], st_n := st_n st - 1\<rparr>)"
    using assms(1) by (auto simp: stack_ok_def)
qed

subsection \<open>Underflow\<close>

lemma set_node_same: "w_heap w p = Some me \<Longrightarrow> set_node w p me = w"
  by (simp add: set_node_def map_upd_triv)

lemma emit_nil: "emit w [] = w"
  by (simp add: emit_def)

lemmas pure_op_defs =
  rpn_do_plus_def rpn_do_minus_def rpn_do_mul_def rpn_do_div_def rpn_do_pow_def
  rpn_do_limit_def rpn_do_inrange_def rpn_do_bitand_def rpn_do_bitor_def rpn_do_bitxor_def
  rpn_do_bitinv_def rpn_do_booland_def rpn_do_boolor_def rpn_do_boolnot_def rpn_do_lt_def
  rpn_do_gt_def rpn_do_dup_def rpn_do_swap_def

lemmas state_op_defs =
  rpn_do_const_def rpn_do_env_def rpn_do_offdelay_def rpn_do_ondelay_def rpn_do_pulse_def
  rpn_do_edge_def rpn_do_rising_def rpn_do_falling_def rpn_do_timeofday_def
  rpn_do_dayofweek_def

lemma underflow_depth:
  assumes "rpn_call x f st p me w = (ret, st', w')"
  shows "(ret < 0) = (st_n st < min_depth f)"
  using assms
  by (cases f) (auto simp: pure_op_defs state_op_defs Let_def split: if_splits prod.splits)

lemma underflow_unchanged:
  assumes "w_heap w p = Some me" "rpn_call x f st p me w = (ret, st', w')" "ret < 0"
  shows "ret = - 1 \<and> st' = st \<and> w' = w"
  using assms
  by (cases f)
     (auto simp: pure_op_defs state_op_defs Let_def set_node_same emit_nil
           split: if_splits prod.splits)

text \<open>
  Claim C9. Underflow is atomic for every operator: the function of a node returns a
  negative value exactly when the stack is less deep than the depth it asks for, and
  then the value is \<open>-1\<close> and it leaves the stack (its length and every cell), the
  node with its state and the rest of the world, the calls to the timer scheduler
  among it, as they were.
\<close>

theorem underflow_atomic:
  assumes "w_heap w p = Some me" and "rpn_call x f st p me w = (ret, st', w')"
  shows "(ret < 0) = (st_n st < min_depth f) \<and> (ret < 0 \<longrightarrow> ret = - 1 \<and> st' = st \<and> w' = w)"
  using underflow_depth[OF assms(2)] underflow_unchanged[OF assms] by blast

theorem underflow_atomic_witness:
  "w_heap (set_node world_init 5 rpn_zero) 5 = Some rpn_zero \<and>
   rpn_call ext_sample Do_ondelay (rpn_push stack_init (Num 1)) 5 rpn_zero (set_node world_init 5 rpn_zero)
     = (- 1, rpn_push stack_init (Num 1), set_node world_init 5 rpn_zero) \<and>
   st_n (rpn_push stack_init (Num 1)) < min_depth Do_ondelay"
proof -
  have h: "w_heap (set_node world_init 5 rpn_zero) 5 = Some rpn_zero"
    by (simp add: set_node_def)
  obtain ret st' w' where c: "rpn_call ext_sample Do_ondelay (rpn_push stack_init (Num 1)) 5 rpn_zero
      (set_node world_init 5 rpn_zero) = (ret, st', w')"
    by (metis prod_cases3)
  have d: "st_n (rpn_push stack_init (Num 1)) < min_depth Do_ondelay"
    by (simp add: rpn_push_def stack_init_def Let_def)
  from underflow_atomic[OF h c] d have "ret = - 1 \<and> st' = rpn_push stack_init (Num 1) \<and>
      w' = set_node world_init 5 rpn_zero"
    by blast
  with h c d show ?thesis by simp
qed

subsection \<open>\<^verbatim>\<open>inrange\<close>\<close>

lemma take_update_grown:
  "take (Suc (length v)) ((v @ replicate (Suc k) z)[length v := a]) = v @ [a]"
  by (simp add: list_update_append)

lemma rpn_push_vals:
  assumes "stack_ok st"
  shows "stack_vals (rpn_push st a) = stack_vals st @ [a]"
    and "stack_ok (rpn_push st a)"
proof -
  let ?v = "st_v st" and ?n = "st_n st"
  from assms have len: "length ?v = st_s st" and le: "?n \<le> st_s st"
    by (simp_all add: stack_ok_def)
  show "stack_vals (rpn_push st a) = stack_vals st @ [a]"
  proof (cases "st_s st \<le> ?n")
    case True
    with len le have n: "?n = length ?v" by simp
    have "take (Suc (length ?v)) ((?v @ replicate 16 (Num 0))[length ?v := a]) = ?v @ [a]"
      using take_update_grown[of "?v" 15 "Num 0" a] by simp
    with True n len show ?thesis
      by (simp add: rpn_push_def stack_vals_def realloc_def Let_def)
  next
    case False
    with len have "?n < length ?v" by simp
    then have "take (Suc ?n) (?v[?n := a]) = take ?n ?v @ [a]"
      by (rule take_Suc_update)
    with False show ?thesis
      by (simp add: rpn_push_def stack_vals_def Let_def)
  qed
  show "stack_ok (rpn_push st a)"
    using len le by (auto simp: rpn_push_def stack_ok_def realloc_def Let_def)
qed

lemma stack_top1:
  assumes "stack_ok st" "stack_vals st = xs @ [a]"
  shows "st_n st = length xs + 1"
    and "st_v st ! (st_n st - 1) = a"
    and "take (length xs) (st_v st) = xs"
    and "st_n st \<le> length (st_v st)"
proof -
  from assms have t: "take (st_n st) (st_v st) = xs @ [a]" and le: "st_n st \<le> length (st_v st)"
    by (simp_all add: stack_ok_def stack_vals_def)
  show n: "st_n st = length xs + 1" using take_split_len[OF t le] by simp
  show "st_v st ! (st_n st - 1) = a" using take_split_nth[OF t le, of 0] n by simp
  show "take (length xs) (st_v st) = xs" using take_split_prefix[OF t le] .
  show "st_n st \<le> length (st_v st)" by (rule le)
qed

lemma stack_unop_result:
  assumes "stack_ok st" "stack_vals st = xs @ [a]"
  shows "stack_vals (st\<lparr>st_v := (st_v st)[st_n st - 1 := c]\<rparr>) = xs @ [c]"
    and "stack_ok (st\<lparr>st_v := (st_v st)[st_n st - 1 := c]\<rparr>)"
proof -
  note f = stack_top1[OF assms]
  have k: "length xs < length (st_v st)" using f(1,4) by simp
  have "take (Suc (length xs)) ((st_v st)[length xs := c]) = take (length xs) (st_v st) @ [c]"
    using k by (rule take_Suc_update)
  then show "stack_vals (st\<lparr>st_v := (st_v st)[st_n st - 1 := c]\<rparr>) = xs @ [c]"
    using f(1,3) by (simp add: stack_vals_def)
  show "stack_ok (st\<lparr>st_v := (st_v st)[st_n st - 1 := c]\<rparr>)"
    using assms(1) by (auto simp: stack_ok_def)
qed

lemma stack_top3:
  assumes "stack_ok st" "stack_vals st = xs @ [a, b, c]"
  shows "st_n st = length xs + 3"
    and "st_v st ! (st_n st - 3) = a"
    and "st_v st ! (st_n st - 2) = b"
    and "st_v st ! (st_n st - 1) = c"
    and "take (length xs) (st_v st) = xs"
    and "st_n st \<le> length (st_v st)"
proof -
  from assms have t: "take (st_n st) (st_v st) = xs @ [a, b, c]"
    and le: "st_n st \<le> length (st_v st)"
    by (simp_all add: stack_ok_def stack_vals_def)
  show n: "st_n st = length xs + 3" using take_split_len[OF t le] by simp
  show "st_v st ! (st_n st - 3) = a" using take_split_nth[OF t le, of 0] n by simp
  show "st_v st ! (st_n st - 2) = b" using take_split_nth[OF t le, of 1] n by simp
  show "st_v st ! (st_n st - 1) = c" using take_split_nth[OF t le, of 2] n by simp
  show "take (length xs) (st_v st) = xs" using take_split_prefix[OF t le] .
  show "st_n st \<le> length (st_v st)" by (rule le)
qed

lemma stack_ternop_result:
  assumes "stack_ok st" "stack_vals st = xs @ [a, b, c]"
  shows "stack_vals (st\<lparr>st_v := (st_v st)[st_n st - 3 := d], st_n := st_n st - 2\<rparr>) = xs @ [d]"
    and "stack_ok (st\<lparr>st_v := (st_v st)[st_n st - 3 := d], st_n := st_n st - 2\<rparr>)"
proof -
  note f = stack_top3[OF assms]
  have k: "length xs < length (st_v st)" using f(1,6) by simp
  have "take (Suc (length xs)) ((st_v st)[length xs := d]) = take (length xs) (st_v st) @ [d]"
    using k by (rule take_Suc_update)
  then show "stack_vals (st\<lparr>st_v := (st_v st)[st_n st - 3 := d], st_n := st_n st - 2\<rparr>) = xs @ [d]"
    using f(1,5) by (simp add: stack_vals_def)
  show "stack_ok (st\<lparr>st_v := (st_v st)[st_n st - 3 := d], st_n := st_n st - 2\<rparr>)"
    using assms(1) by (auto simp: stack_ok_def)
qed

lemma d_lt_irrefl: "\<not> d_lt a a"
  by (cases a) simp_all

lemma d_le_refl: "a \<noteq> NaN \<Longrightarrow> d_le a a"
  by (cases a) simp_all

lemma d_le_total: "a \<noteq> NaN \<Longrightarrow> b \<noteq> NaN \<Longrightarrow> d_le a b \<or> d_le b a"
  by (cases a; cases b) auto

lemma inrange_run:
  assumes "stack_ok st" "stack_vals st = xs @ [x, lo, hi]"
  shows "rpn_do_inrange st =
           (1, st\<lparr>st_v := (st_v st)[st_n st - 3 := d_of_int (c_bool
                 (if d_lt lo hi then d_ge x lo \<and> d_le x hi else d_ge x lo \<or> d_le x hi))],
                  st_n := st_n st - 2\<rparr>)"
  using stack_top3[OF assms] by (simp add: rpn_do_inrange_def)

text \<open>
  Claim C6, amended. \<^verbatim>\<open>inrange\<close> replaces the third value from the top, \<open>x\<close>, by a
  truth value computed from the bounds \<open>lo\<close> (second from the top) and \<open>hi\<close> (top)
  and drops the bounds: when \<open>lo < hi\<close> the result is \<open>x >= lo\<close> and \<open>x <= hi\<close>,
  otherwise it is \<open>x >= lo\<close> or \<open>x <= hi\<close>. With the bounds 22 and 6 the input 23
  gives 1 and the input 10 gives 0. When \<open>lo == hi\<close> the second branch is taken and
  the result is 1 for every input \<open>x\<close> that is not a NaN.
\<close>

theorem inrange_result:
  assumes "stack_ok st" and "stack_vals st = xs @ [x, lo, hi]"
  shows "\<exists>st'. rpn_do_inrange st = (1, st') \<and> stack_ok st' \<and>
           stack_vals st' = xs @ [d_of_int (c_bool
             (if d_lt lo hi then d_ge x lo \<and> d_le x hi else d_ge x lo \<or> d_le x hi))] \<and>
           (lo = Num 22 \<and> hi = Num 6 \<and> x = Num 23 \<longrightarrow> stack_vals st' = xs @ [Num 1]) \<and>
           (lo = Num 22 \<and> hi = Num 6 \<and> x = Num 10 \<longrightarrow> stack_vals st' = xs @ [Num 0]) \<and>
           (lo = hi \<and> lo \<noteq> NaN \<and> x \<noteq> NaN \<longrightarrow> \<not> d_lt lo hi \<and> stack_vals st' = xs @ [Num 1])"
proof -
  let ?r = "d_of_int (c_bool
             (if d_lt lo hi then d_ge x lo \<and> d_le x hi else d_ge x lo \<or> d_le x hi))"
  let ?st = "st\<lparr>st_v := (st_v st)[st_n st - 3 := ?r], st_n := st_n st - 2\<rparr>"
  have run: "rpn_do_inrange st = (1, ?st)" by (rule inrange_run[OF assms])
  have vals: "stack_vals ?st = xs @ [?r]" by (rule stack_ternop_result(1)[OF assms])
  have ok: "stack_ok ?st" by (rule stack_ternop_result(2)[OF assms])
  have e1: "lo = Num 22 \<and> hi = Num 6 \<and> x = Num 23 \<longrightarrow> ?r = Num 1"
    by (simp add: d_ge_def d_of_int_def c_bool_def)
  have e2: "lo = Num 22 \<and> hi = Num 6 \<and> x = Num 10 \<longrightarrow> ?r = Num 0"
    by (simp add: d_ge_def d_of_int_def c_bool_def)
  have e3: "lo = hi \<and> lo \<noteq> NaN \<and> x \<noteq> NaN \<longrightarrow> \<not> d_lt lo hi \<and> ?r = Num 1"
    using d_le_total[of x lo] by (auto simp: d_lt_irrefl d_ge_def d_of_int_def c_bool_def)
  from run vals ok e1 e2 e3 show ?thesis by auto
qed

theorem inrange_result_witness:
  "stack_ok (rpn_push (rpn_push (rpn_push stack_init (Num 7)) (Num 7)) (Num 7)) \<and>
   stack_vals (rpn_push (rpn_push (rpn_push stack_init (Num 7)) (Num 7)) (Num 7)) = [] @ [Num 7, Num 7, Num 7] \<and>
   (\<exists>st'. rpn_do_inrange (rpn_push (rpn_push (rpn_push stack_init (Num 7)) (Num 7)) (Num 7)) = (1, st') \<and>
      stack_vals st' = [Num 1])"
proof -
  let ?st = "rpn_push (rpn_push (rpn_push stack_init (Num 7)) (Num 7)) (Num 7)"
  have ok0: "stack_ok stack_init" by (simp add: stack_ok_def stack_init_def)
  have ok1: "stack_ok (rpn_push stack_init (Num 7))" by (intro rpn_push_vals(2) ok0)
  have ok2: "stack_ok (rpn_push (rpn_push stack_init (Num 7)) (Num 7))"
    by (intro rpn_push_vals(2) ok0)
  have ok: "stack_ok ?st" by (intro rpn_push_vals(2) ok0)
  have v0: "stack_vals stack_init = []" by (simp add: stack_vals_def stack_init_def)
  have v: "stack_vals ?st = [] @ [Num 7, Num 7, Num 7]"
    by (simp add: rpn_push_vals(1) ok0 ok1 ok2 v0)
  from inrange_result[OF ok v] ok v show ?thesis by auto
qed

text \<open>
  For a NaN as the input the result is 0, also when the bounds are equal: both
  comparisons with a NaN are false. (A NaN comes onto the stack from \<^verbatim>\<open>0 0 /\<close>, or
  from the environment.)
\<close>

theorem inrange_nan_counterexample:
  "stack_ok \<lparr>st_v = [NaN, Num 5, Num 5], st_n = 3, st_s = 3\<rparr> \<and>
   stack_vals \<lparr>st_v = [NaN, Num 5, Num 5], st_n = 3, st_s = 3\<rparr> = [NaN, Num 5, Num 5] \<and>
   rpn_do_inrange \<lparr>st_v = [NaN, Num 5, Num 5], st_n = 3, st_s = 3\<rparr>
     = (1, \<lparr>st_v = [Num 0, Num 5, Num 5], st_n = 1, st_s = 3\<rparr>) \<and>
   stack_vals \<lparr>st_v = [Num 0, Num 5, Num 5], st_n = 1, st_s = 3\<rparr> = [Num 0]"
  by (simp add: stack_ok_def stack_vals_def rpn_do_inrange_def d_ge_def d_of_int_def c_bool_def)

subsection \<open>\<^verbatim>\<open>rising\<close> and the clock operators\<close>

lemma stack_init_ok: "stack_ok stack_init"
  by (simp add: stack_ok_def stack_init_def)

lemma stack_init_vals: "stack_vals stack_init = []"
  by (simp add: stack_vals_def stack_init_def)

lemma stack_reset_ok: "stack_ok st \<Longrightarrow> stack_ok (rpn_stack_reset st)"
  by (simp add: stack_ok_def rpn_stack_reset_def)

lemma stack_reset_vals: "stack_vals (rpn_stack_reset st) = []"
  by (simp add: stack_vals_def rpn_stack_reset_def)

lemma rising_run:
  assumes "stack_ok st" "stack_vals st = xs @ [a]"
  shows "rpn_do_rising st me =
           (0, st\<lparr>st_v := (st_v st)[st_n st - 1 :=
                    d_of_int (c_bool (c_int a \<noteq> 0 \<and> r_cookie me = 0))]\<rparr>,
               me\<lparr>r_cookie := c_int a\<rparr>)"
  using stack_top1[OF assms] by (simp add: rpn_do_rising_def Let_def)

lemma rising_fresh:
  assumes "stack_ok st"
  shows "\<exists>st'. rpn_do_rising (rpn_push (rpn_stack_reset st) a) me = (0, st', me\<lparr>r_cookie := c_int a\<rparr>) \<and>
           stack_ok st' \<and>
           stack_vals st' = [d_of_int (c_bool (c_int a \<noteq> 0 \<and> r_cookie me = 0))]"
proof -
  let ?st = "rpn_push (rpn_stack_reset st) a"
  have ok: "stack_ok ?st" by (intro rpn_push_vals(2) stack_reset_ok assms)
  have v: "stack_vals ?st = [] @ [a]"
    by (simp add: rpn_push_vals(1) stack_reset_ok assms stack_reset_vals)
  show ?thesis
    using rising_run[OF ok v] stack_unop_result[OF ok v] by simp
qed

lemma c_int_0: "c_int (Num 0) = 0"
  by (simp add: trunc_real_def INT_MIN_def)

lemma c_int_1: "c_int (Num 1) = 1"
  by (simp add: trunc_real_def INT_MIN_def)

lemma rising_sequence:
  "eval_inputs rpn_do_rising stack_init rpn_zero [Num 0, Num 1, Num 1, Num 0, Num 1]
     = [[Num 0], [Num 1], [Num 0], [Num 0], [Num 1]]"
  by code_simp

lemma lookup_rising: "do_lookup ''rising'' = Some Do_rising \<and> do_lookup ''pushed'' = Some Do_rising"
  by (simp add: do_lookup_def lookups_def)

text \<open>
  Claim C7. \<^verbatim>\<open>rising\<close>, with the alias \<^verbatim>\<open>pushed\<close>, has a state that lasts from one
  evaluation of a node to the next: it replaces the top of the stack by 1 exactly when
  the truncated input is not zero and the input stored before was zero, and by 0
  otherwise, and stores the truncated input. The state of a node that \<^verbatim>\<open>rpn_create\<close>
  made is 0, and from there the inputs 0, 1, 1, 0, 1 give the outputs 0, 1, 0, 0, 1.
\<close>

theorem rising_stateful:
  assumes "stack_ok st" and "stack_vals st = xs @ [a]"
  shows "(\<exists>st'. rpn_do_rising st me = (0, st', me\<lparr>r_cookie := c_int a\<rparr>) \<and>
            stack_vals st' = xs @ [d_of_int (c_bool (c_int a \<noteq> 0 \<and> r_cookie me = 0))]) \<and>
         do_lookup ''rising'' = Some Do_rising \<and> do_lookup ''pushed'' = Some Do_rising \<and>
         w_heap (snd (rpn_create w)) (fst (rpn_create w)) = Some rpn_zero \<and>
         r_cookie rpn_zero = 0 \<and>
         eval_inputs rpn_do_rising stack_init rpn_zero [Num 0, Num 1, Num 1, Num 0, Num 1]
           = [[Num 0], [Num 1], [Num 0], [Num 0], [Num 1]]"
proof -
  have "\<exists>st'. rpn_do_rising st me = (0, st', me\<lparr>r_cookie := c_int a\<rparr>) \<and>
            stack_vals st' = xs @ [d_of_int (c_bool (c_int a \<noteq> 0 \<and> r_cookie me = 0))]"
    using rising_run[OF assms] stack_unop_result(1)[OF assms] by simp
  moreover have "w_heap (snd (rpn_create w)) (fst (rpn_create w)) = Some rpn_zero"
    by (simp add: rpn_create_def set_node_def)
  moreover have "r_cookie rpn_zero = 0"
    by (simp add: rpn_zero_def)
  ultimately show ?thesis
    using lookup_rising rising_sequence by blast
qed

theorem rising_stateful_witness:
  "stack_ok (rpn_push stack_init (Num 1)) \<and>
   stack_vals (rpn_push stack_init (Num 1)) = [] @ [Num 1] \<and>
   (\<exists>st'. rpn_do_rising (rpn_push stack_init (Num 1)) rpn_zero = (0, st', rpn_zero\<lparr>r_cookie := 1\<rparr>) \<and>
      stack_vals st' = [Num 1])"
proof -
  have ok: "stack_ok (rpn_push stack_init (Num 1))"
    by (intro rpn_push_vals(2) stack_init_ok)
  have v: "stack_vals (rpn_push stack_init (Num 1)) = [] @ [Num 1]"
    by (simp add: rpn_push_vals(1) stack_init_ok stack_init_vals)
  have z: "r_cookie rpn_zero = 0" by (simp add: rpn_zero_def)
  have "\<exists>st'. rpn_do_rising (rpn_push stack_init (Num 1)) rpn_zero
           = (0, st', rpn_zero\<lparr>r_cookie := c_int (Num 1)\<rparr>) \<and>
         stack_vals st' = [] @ [d_of_int (c_bool (c_int (Num 1) \<noteq> 0 \<and> r_cookie rpn_zero = 0))]"
    by (rule conjunct1[OF rising_stateful[OF ok v, of rpn_zero world_init]])
  then have "\<exists>st'. rpn_do_rising (rpn_push stack_init (Num 1)) rpn_zero
           = (0, st', rpn_zero\<lparr>r_cookie := 1\<rparr>) \<and> stack_vals st' = [Num 1]"
    unfolding c_int_1 z by (simp add: d_of_int_def c_bool_def)
  with ok v show ?thesis by blast
qed

lemma next_minute_range: "1 \<le> next_minute t \<and> next_minute t \<le> 60"
  by (simp add: next_minute_def Let_def)

lemma next_minute_value:
  "next_minute t = (if 0 \<le> tm_sec t \<and> tm_sec t < 60 then 60 - tm_sec t else 60)"
  by (simp add: next_minute_def Let_def)

text \<open>
  Claim C8, amended. With the broken-down local time \<open>t\<close>, \<^verbatim>\<open>timeofday\<close> pushes
  the hour plus the minute by 60 plus the second by 3600, and \<^verbatim>\<open>dayofweek\<close> pushes
  the day of the week, 7 in place of 0 for the Sunday, which is a number from 1 to 7
  for the days 0 to 6 of C. Both then add a timer for \<^verbatim>\<open>rpn_run_again\<close> of the owner,
  with a delay from 1 to 60: 60 minus the seconds of \<open>t\<close> when the seconds are from
  0 to 59, and 60 otherwise.
\<close>

theorem clock_operators:
  "rpn_do_timeofday t st me =
     (0, rpn_push st (Num (real_of_int (tm_hour t) + real_of_int (tm_min t) / 60
                            + real_of_int (tm_sec t) / 3600)),
      [Libt_add_timeout (d_of_int (next_minute t)) Rpn_run_again (r_dat me)]) \<and>
   rpn_do_dayofweek t st me =
     (0, rpn_push st (d_of_int (if tm_wday t = 0 then 7 else tm_wday t)),
      [Libt_add_timeout (d_of_int (next_minute t)) Rpn_run_again (r_dat me)]) \<and>
   (stack_ok st \<longrightarrow> (\<forall>a. stack_vals (rpn_push st a) = stack_vals st @ [a])) \<and>
   (0 \<le> tm_wday t \<and> tm_wday t \<le> 6 \<longrightarrow>
      1 \<le> (if tm_wday t = 0 then 7 else tm_wday t) \<and> (if tm_wday t = 0 then 7 else tm_wday t) \<le> 7) \<and>
   1 \<le> next_minute t \<and> next_minute t \<le> 60 \<and>
   next_minute t = (if 0 \<le> tm_sec t \<and> tm_sec t < 60 then 60 - tm_sec t else 60)"
proof -
  have "rpn_do_timeofday t st me =
     (0, rpn_push st (Num (real_of_int (tm_hour t) + real_of_int (tm_min t) / 60
                            + real_of_int (tm_sec t) / 3600)),
      [Libt_add_timeout (d_of_int (next_minute t)) Rpn_run_again (r_dat me)])"
    by (simp add: rpn_do_timeofday_def d_of_int_def)
  moreover have "rpn_do_dayofweek t st me =
     (0, rpn_push st (d_of_int (if tm_wday t = 0 then 7 else tm_wday t)),
      [Libt_add_timeout (d_of_int (next_minute t)) Rpn_run_again (r_dat me)])"
    by (simp add: rpn_do_dayofweek_def)
  moreover have "stack_ok st \<longrightarrow> (\<forall>a. stack_vals (rpn_push st a) = stack_vals st @ [a])"
    by (simp add: rpn_push_vals(1))
  ultimately show ?thesis
    using next_minute_range[of t] next_minute_value[of t] by simp
qed

theorem clock_operators_witness:
  "stack_ok stack_init \<and> 0 \<le> tm_wday tm_leap \<and> tm_wday tm_leap \<le> 6 \<and>
   rpn_do_dayofweek tm_leap stack_init rpn_zero =
     (0, rpn_push stack_init (Num 7), [Libt_add_timeout (Num 60) Rpn_run_again 0]) \<and>
   stack_vals (rpn_push stack_init (Num 7)) = [Num 7]"
  using clock_operators[of tm_leap stack_init rpn_zero]
  by (simp add: stack_init_ok stack_init_vals tm_leap_def d_of_int_def rpn_zero_def)

text \<open>
  In a leap second (\<^verbatim>\<open>tm_sec\<close> is 60) the delay is 60, where clamping 60 minus the
  seconds into 1..60 gives 1.
\<close>

theorem next_minute_clamp_counterexample:
  "next_minute tm_leap = 60 \<and> clamp_1_60 (60 - tm_sec tm_leap) = 1"
  by (simp add: next_minute_def tm_leap_def clamp_1_60_def)

subsection \<open>The first underflow ends the run\<close>

lemma rpn_run_null: "rpn_run x st None w = Some (0, st, w)"
  by (subst rpn_run.simps) simp

lemma rpn_run_node:
  assumes "w_heap w p = Some me" "r_run me = Some f" "rpn_call x f st p me w = (ret, st1, w1)"
  shows "rpn_run x st (Some p) w =
           (if ret < 0 then Some (ret, st1, w1)
            else (case w_heap w1 p of
                    None \<Rightarrow> None
                  | Some me1 \<Rightarrow> rpn_run x st1 (r_next me1) w1))"
  using assms by (subst rpn_run.simps) simp

lemma run_prefix_fail:
  assumes "run_prefix x st rpn w st1 rpn1 w1"
    and "rpn1 = Some p" "w_heap w1 p = Some me" "r_run me = Some f"
    and "rpn_call x f st1 p me w1 = (ret, st', w')" "ret < 0"
  shows "rpn_run x st rpn w = Some (ret, st', w')"
  using assms
proof (induction rule: run_prefix.induct)
  case (run_prefix_here st rpn w)
  then show ?case by (simp add: rpn_run_node)
next
  case (run_prefix_node w q me0 f0 st ret0 st0 w0 me1 st1 rpn1 w1)
  then show ?case by (simp add: rpn_run_node)
qed

lemma run_prefix_end:
  assumes "run_prefix x st rpn w st1 rpn1 w1" and "rpn1 = None"
  shows "rpn_run x st rpn w = Some (0, st1, w1)"
  using assms
proof (induction rule: run_prefix.induct)
  case (run_prefix_here st rpn w)
  then show ?case by (simp add: rpn_run_null)
next
  case (run_prefix_node w q me0 f0 st ret0 st0 w0 me1 st1 rpn1 w1)
  then show ?case by (simp add: rpn_run_node)
qed

lemma underflow_example: "compile_and_run x ''1 +'' dat stack_init world_init = Some (- 1, [Num 1])"
  by code_simp

text \<open>
  Claim C4. When some nodes of a chain have run without a negative return value and
  the function of the next node returns a negative value, \<^verbatim>\<open>rpn_run\<close> returns this
  value at once: the stack and the world it leaves are those that the failing
  function left, which are those that the nodes before it left, and no later node has
  run. The chain compiled from \<^verbatim>\<open>1 +\<close> returns \<open>-1\<close> with the constant 1 as the only
  value on the stack.
\<close>

theorem run_stops_at_underflow:
  assumes "run_prefix x st rpn w st1 (Some p) w1"
    and "w_heap w1 p = Some me" and "r_run me = Some f"
    and "rpn_call x f st1 p me w1 = (ret, st', w')" and "ret < 0"
  shows "rpn_run x st rpn w = Some (ret, st', w') \<and> st' = st1 \<and> w' = w1 \<and>
         compile_and_run x ''1 +'' dat stack_init world_init = Some (- 1, [Num 1])"
  using run_prefix_fail[OF assms(1) refl assms(2-5)] underflow_unchanged[OF assms(2,4,5)]
    underflow_example
  by simp


lemma parse_1_plus: "rpn_parse ''1 +'' 0 world_init = Some (Some 0, chain_1_plus)"
proof -
  have t: "strtok_all ''1 +'' [CHR '' '', CHR 0x09] = [''1'', ''+'']"
    by code_simp
  have n1: "rpn_token_node ''1'' = Some (rpn_zero\<lparr>r_run := Some Do_const, r_value := Num 1\<rparr>)"
    by code_simp
  have n2: "rpn_token_node ''+'' = Some (rpn_zero\<lparr>r_run := Some Do_plus\<rparr>)"
    by code_simp
  show ?thesis
    unfolding rpn_parse_def t
    by (simp add: n1 n2 rpn_create_def set_node_def world_init_def chain_1_plus_def
          node_const_1_def node_plus_def rpn_zero_def fun_eq_iff)
qed

theorem run_stops_at_underflow_witness:
  "run_prefix ext_sample stack_init (Some 0) chain_1_plus
     (rpn_push stack_init (Num 1)) (Some 1) chain_1_plus \<and>
   w_heap chain_1_plus 1 = Some node_plus \<and> r_run node_plus = Some Do_plus \<and>
   rpn_call ext_sample Do_plus (rpn_push stack_init (Num 1)) 1 node_plus chain_1_plus
     = (- 1, rpn_push stack_init (Num 1), chain_1_plus) \<and>
   rpn_parse ''1 +'' 0 world_init = Some (Some 0, chain_1_plus) \<and>
   rpn_run ext_sample stack_init (Some 0) chain_1_plus
     = Some (- 1, rpn_push stack_init (Num 1), chain_1_plus)"
proof -
  have h0: "w_heap chain_1_plus 0 = Some node_const_1"
    and h1: "w_heap chain_1_plus 1 = Some node_plus"
    by (simp_all add: chain_1_plus_def)
  have r0: "r_run node_const_1 = Some Do_const" and nx: "r_next node_const_1 = Some 1"
    and r1: "r_run node_plus = Some Do_plus"
    by (simp_all add: node_const_1_def node_plus_def)
  have c0: "rpn_call ext_sample Do_const stack_init 0 node_const_1 chain_1_plus
      = (0, rpn_push stack_init (Num 1), chain_1_plus)"
    by (simp add: rpn_do_const_def node_const_1_def)
  have c1: "rpn_call ext_sample Do_plus (rpn_push stack_init (Num 1)) 1 node_plus chain_1_plus
      = (- 1, rpn_push stack_init (Num 1), chain_1_plus)"
    by (simp add: rpn_do_plus_def rpn_push_def stack_init_def Let_def)
  have rp: "run_prefix ext_sample (rpn_push stack_init (Num 1)) (r_next node_const_1) chain_1_plus
      (rpn_push stack_init (Num 1)) (Some 1) chain_1_plus"
    unfolding nx by (rule run_prefix_here)
  have p: "run_prefix ext_sample stack_init (Some 0) chain_1_plus
      (rpn_push stack_init (Num 1)) (Some 1) chain_1_plus"
    by (rule run_prefix_node[OF h0 r0 c0 _ h0 rp]) simp
  from run_stops_at_underflow[OF p h1 r1 c1] p h1 r1 c1 parse_1_plus show ?thesis
    by simp
qed

subsection \<open>Numbers in sexagesimal notation\<close>





























subsection \<open>The timer operators\<close>

lemma fresh2:
  "stack_ok (rpn_push (rpn_push (rpn_stack_reset stack_init) a) d)"
  "stack_vals (rpn_push (rpn_push (rpn_stack_reset stack_init) a) d) = [] @ [a, d]"
proof -
  have o0: "stack_ok (rpn_stack_reset stack_init)"
    by (intro stack_reset_ok stack_init_ok)
  have o1: "stack_ok (rpn_push (rpn_stack_reset stack_init) a)"
    by (intro rpn_push_vals(2) o0)
  show "stack_ok (rpn_push (rpn_push (rpn_stack_reset stack_init) a) d)"
    by (intro rpn_push_vals(2) o1)
  show "stack_vals (rpn_push (rpn_push (rpn_stack_reset stack_init) a) d) = [] @ [a, d]"
    by (simp add: rpn_push_vals(1) o0 o1 stack_reset_vals)
qed

lemma and_2_bit: "(c AND 2 = 0) = (\<not> bit (c :: int) 1)"
  using bit_iff_and_push_bit_not_eq_0[of c 1] by simp

lemma and_1_bit: "(c AND 1 = 0) = (\<not> bit (c :: int) 0)"
  using bit_iff_and_push_bit_not_eq_0[of c 0] by simp

lemma ondelay_run:
  assumes "stack_ok st" and "stack_vals st = xs @ [a, d]"
  shows "rpn_do_ondelay st p me =
     (let c1 = (if c_int a = 0 \<and> bit (r_cookie me) 0 then r_cookie me AND NOT 2 else r_cookie me);
          c2 = (c1 AND NOT 1) OR c_bool (c_int a \<noteq> 0)
      in (0,
          st\<lparr>st_v := (st_v st)[st_n st - 2 := d_of_int (c_bool (bit c2 1))], st_n := st_n st - 1\<rparr>,
          me\<lparr>r_cookie := c2\<rparr>,
          if c_int a \<noteq> 0 \<and> \<not> bit (r_cookie me) 0 then [Libt_add_timeout d On_delay p]
          else if c_int a = 0 \<and> bit (r_cookie me) 0 then [Libt_remove_timeout On_delay p]
          else []))"
  using stack_top2[OF assms]
  by (simp add: rpn_do_ondelay_def Let_def and_2_bit and_1_bit)

lemma pulse_run:
  assumes "stack_ok st" and "stack_vals st = xs @ [a, d]"
  shows "rpn_do_pulse st p me =
     (let c1 = (if c_int a \<noteq> 0 \<and> \<not> bit (r_cookie me) 0 then r_cookie me OR 2 else r_cookie me);
          c2 = (c1 AND NOT 1) OR c_bool (c_int a \<noteq> 0)
      in (0,
          st\<lparr>st_v := (st_v st)[st_n st - 2 := d_of_int (c_bool (bit c2 1))], st_n := st_n st - 1\<rparr>,
          me\<lparr>r_cookie := c2\<rparr>,
          if c_int a \<noteq> 0 \<and> \<not> bit (r_cookie me) 0 then [Libt_add_timeout d On_delay p]
          else if c_int a = 0 \<and> bit (r_cookie me) 0 then [Libt_remove_timeout On_delay p]
          else []))"
  using stack_top2[OF assms]
  by (simp add: rpn_do_pulse_def Let_def and_2_bit and_1_bit)

lemma ondelay_step:
  "timed_step rpn_do_ondelay p (Eval a d) (me, t) =
     (let c1 = (if c_int a = 0 \<and> bit (r_cookie me) 0 then r_cookie me AND NOT 2 else r_cookie me);
          c2 = (c1 AND NOT 1) OR c_bool (c_int a \<noteq> 0)
      in ([d_of_int (c_bool (bit c2 1))], me\<lparr>r_cookie := c2\<rparr>,
          if c_int a \<noteq> 0 \<and> \<not> bit (r_cookie me) 0 then t((On_delay, p) \<mapsto> d)
          else if c_int a = 0 \<and> bit (r_cookie me) 0 then t((On_delay, p) := None)
          else t))"
  using stack_binop_result(1)[OF fresh2, of a d]
  by (simp add: ondelay_run[OF fresh2] Let_def)

lemma pulse_step:
  "timed_step rpn_do_pulse p (Eval a d) (me, t) =
     (let c1 = (if c_int a \<noteq> 0 \<and> \<not> bit (r_cookie me) 0 then r_cookie me OR 2 else r_cookie me);
          c2 = (c1 AND NOT 1) OR c_bool (c_int a \<noteq> 0)
      in ([d_of_int (c_bool (bit c2 1))], me\<lparr>r_cookie := c2\<rparr>,
          if c_int a \<noteq> 0 \<and> \<not> bit (r_cookie me) 0 then t((On_delay, p) \<mapsto> d)
          else if c_int a = 0 \<and> bit (r_cookie me) 0 then t((On_delay, p) := None)
          else t))"
  using stack_binop_result(1)[OF fresh2, of a d]
  by (simp add: pulse_run[OF fresh2] Let_def)

lemma timed_run_append:
  "timed_run f p (es1 @ es2) s =
     (case timed_run f p es1 s of
        (o1, s1) \<Rightarrow> (case timed_run f p es2 s1 of (o2, s2) \<Rightarrow> (o1 @ o2, s2)))"
  by (induction es1 arbitrary: s) (auto split: prod.splits)

lemma ondelay_highs:
  assumes "list_all is_high highs" and "r_cookie me = 1"
  shows "\<exists>me'. timed_run rpn_do_ondelay p highs (me, t) = (replicate (length highs) [Num 0], me', t) \<and>
           r_cookie me' = 1"
  using assms
proof (induction highs arbitrary: me)
  case Nil
  then show ?case by simp
next
  case (Cons e es)
  from Cons.prems(1) have he: "is_high e" and r: "list_all is_high es"
    by simp_all
  from he obtain a d where e: "e = Eval a d" and h: "c_int a \<noteq> 0"
    by (cases e) (simp_all add: is_high_def)
  have st: "timed_step rpn_do_ondelay p e (me, t) = ([Num 0], me\<lparr>r_cookie := 1\<rparr>, t)"
    unfolding e ondelay_step using h Cons.prems(2) by (simp add: Let_def c_bool_def d_of_int_def)
  from Cons.IH[OF r, of "me\<lparr>r_cookie := 1\<rparr>"] obtain me' where
    "timed_run rpn_do_ondelay p es (me\<lparr>r_cookie := 1\<rparr>, t) = (replicate (length es) [Num 0], me', t)"
    "r_cookie me' = 1"
    by auto
  with st show ?case by simp
qed


lemma cookie_bit0: "bit (((c :: int) AND - 2) OR c_bool b) 0 = b"
  by (simp add: c_bool_def bit_0 even_or_iff even_and_iff)

lemma bit_2_1: "bit (2 :: int) 1"
  by (simp add: bit_iff_odd_drop_bit)

lemma toggle_bits: "bit ((c :: int) XOR 2) 1 = (\<not> bit c 1)" "bit (c XOR 2) 0 = bit c 0"
  by (simp_all add: bit_xor_iff bit_0 even_xor_iff bit_2_1)

lemma ondelay_until_fire:
  assumes "r_cookie me = 0" and "t (On_delay, p) = None" and "c_int a \<noteq> 0"
    and "list_all is_high highs"
  shows "\<exists>me'. timed_run rpn_do_ondelay p (Eval a d # highs) (me, t)
             = (replicate (Suc (length highs)) [Num 0], me', t((On_delay, p) \<mapsto> d)) \<and>
           r_cookie me' = 1"
proof -
  have st: "timed_step rpn_do_ondelay p (Eval a d) (me, t)
      = ([Num 0], me\<lparr>r_cookie := 1\<rparr>, t((On_delay, p) \<mapsto> d))"
    unfolding ondelay_step using assms(1,3) by (simp add: Let_def c_bool_def d_of_int_def)
  from ondelay_highs[OF assms(4), of "me\<lparr>r_cookie := 1\<rparr>" p "t((On_delay, p) \<mapsto> d)"]
  obtain me' where "timed_run rpn_do_ondelay p highs (me\<lparr>r_cookie := 1\<rparr>, t((On_delay, p) \<mapsto> d))
      = (replicate (length highs) [Num 0], me', t((On_delay, p) \<mapsto> d))" "r_cookie me' = 1"
    by auto
  with st show ?thesis by simp
qed

lemma ondelay_after_fire:
  assumes "r_cookie me = 1" and "t (On_delay, p) = Some d" and "c_int a \<noteq> 0"
  shows "timed_run rpn_do_ondelay p [Fire, Eval a d'] (me, t)
           = ([[], [Num 1]], me\<lparr>r_cookie := 3\<rparr>, t((On_delay, p) := None))"
proof -
  have f: "timed_step rpn_do_ondelay p Fire (me, t)
      = ([], me\<lparr>r_cookie := 3\<rparr>, t((On_delay, p) := None))"
    using assms(1,2) by (simp add: on_delay_def)
  have e: "timed_step rpn_do_ondelay p (Eval a d') (me\<lparr>r_cookie := 3\<rparr>, t((On_delay, p) := None))
      = ([Num 1], me\<lparr>r_cookie := 3\<rparr>, t((On_delay, p) := None))"
    unfolding ondelay_step using assms(3) by (simp add: Let_def c_bool_def d_of_int_def)
  show ?thesis
    by (simp add: f e del: timed_step.simps)
qed

lemma ondelay_drop:
  assumes "r_cookie me = 1" and "c_int a = 0"
  shows "timed_run rpn_do_ondelay p [Eval a d'] (me, t)
           = ([[Num 0]], me\<lparr>r_cookie := 0\<rparr>, t((On_delay, p) := None))"
proof -
  have e: "timed_step rpn_do_ondelay p (Eval a d') (me, t)
      = ([Num 0], me\<lparr>r_cookie := 0\<rparr>, t((On_delay, p) := None))"
    unfolding ondelay_step using assms by (simp add: Let_def c_bool_def d_of_int_def)
  show ?thesis
    by (simp add: e del: timed_step.simps)
qed

text \<open>
  Claim C5. \<^verbatim>\<open>ondelay\<close> is evaluated with the input and the delay on the stack.
  From the state 0 with no timer pending, the evaluation that sees the input high
  adds a timer with the delay and puts out 0, and so does every further evaluation
  with the input high, without touching the timer. When the timer then fires, the
  next evaluation with the input high puts out 1. When instead the input is 0 in an
  evaluation before the timer has fired, the timer is removed, the output is 0 and
  the state is 0 again. Bit 0 of the state holds the input seen last and bit 1 the
  output; the callback of the timer toggles bit 1 and calls \<^verbatim>\<open>rpn_run_again\<close> for the
  owner.
\<close>

theorem ondelay_behaviour:
  assumes "r_cookie me = 0" and "t (On_delay, p) = None" and "c_int a \<noteq> 0"
    and "list_all is_high highs"
  shows "(\<exists>me' t'. timed_run rpn_do_ondelay p (Eval a d # highs) (me, t)
              = (replicate (Suc (length highs)) [Num 0], me', t') \<and>
            r_cookie me' = 1 \<and> t' (On_delay, p) = Some d) \<and>
         (c_int b \<noteq> 0 \<longrightarrow>
            (\<exists>me' t'. timed_run rpn_do_ondelay p ((Eval a d # highs) @ [Fire, Eval b d']) (me, t)
               = (replicate (Suc (length highs)) [Num 0] @ [[], [Num 1]], me', t') \<and>
             r_cookie me' = 3 \<and> t' (On_delay, p) = None)) \<and>
         (c_int b = 0 \<longrightarrow>
            (\<exists>me' t'. timed_run rpn_do_ondelay p ((Eval a d # highs) @ [Eval b d']) (me, t)
               = (replicate (Suc (length highs)) [Num 0] @ [[Num 0]], me', t') \<and>
             r_cookie me' = 0 \<and> t' (On_delay, p) = None)) \<and>
         on_delay me1 = (me1\<lparr>r_cookie := r_cookie me1 XOR 2\<rparr>, [Call_rpn_run_again (r_dat me1)]) \<and>
         bit (r_cookie me1 XOR 2) 1 = (\<not> bit (r_cookie me1) 1) \<and>
         bit (r_cookie me1 XOR 2) 0 = bit (r_cookie me1) 0 \<and>
         (\<exists>me2 t2. timed_step rpn_do_ondelay p (Eval a1 d1) (me1, t1)
              = ([d_of_int (c_bool (bit (r_cookie me2) 1))], me2, t2) \<and>
            bit (r_cookie me2) 0 = (c_int a1 \<noteq> 0))"
proof -
  from ondelay_until_fire[where t = t and p = p and d = d, OF assms] obtain me' where
    run: "timed_run rpn_do_ondelay p (Eval a d # highs) (me, t)
       = (replicate (Suc (length highs)) [Num 0], me', t((On_delay, p) \<mapsto> d))"
    and c: "r_cookie me' = 1"
    by auto
  have p1: "\<exists>me' t'. timed_run rpn_do_ondelay p (Eval a d # highs) (me, t)
              = (replicate (Suc (length highs)) [Num 0], me', t') \<and>
            r_cookie me' = 1 \<and> t' (On_delay, p) = Some d"
    using run c by simp
  have p2: "c_int b \<noteq> 0 \<longrightarrow>
            (\<exists>me' t'. timed_run rpn_do_ondelay p ((Eval a d # highs) @ [Fire, Eval b d']) (me, t)
               = (replicate (Suc (length highs)) [Num 0] @ [[], [Num 1]], me', t') \<and>
             r_cookie me' = 3 \<and> t' (On_delay, p) = None)"
  proof
    assume b: "c_int b \<noteq> 0"
    have "timed_run rpn_do_ondelay p [Fire, Eval b d'] (me', t((On_delay, p) \<mapsto> d))
        = ([[], [Num 1]], me'\<lparr>r_cookie := 3\<rparr>, (t((On_delay, p) \<mapsto> d))((On_delay, p) := None))"
      using ondelay_after_fire[where t = "t((On_delay, p) \<mapsto> d)" and p = p and d = d, OF c _ b]
      by simp
    then show "\<exists>me' t'. timed_run rpn_do_ondelay p ((Eval a d # highs) @ [Fire, Eval b d']) (me, t)
               = (replicate (Suc (length highs)) [Num 0] @ [[], [Num 1]], me', t') \<and>
             r_cookie me' = 3 \<and> t' (On_delay, p) = None"
      unfolding timed_run_append run by simp
  qed
  have p3: "c_int b = 0 \<longrightarrow>
            (\<exists>me' t'. timed_run rpn_do_ondelay p ((Eval a d # highs) @ [Eval b d']) (me, t)
               = (replicate (Suc (length highs)) [Num 0] @ [[Num 0]], me', t') \<and>
             r_cookie me' = 0 \<and> t' (On_delay, p) = None)"
  proof
    assume b: "c_int b = 0"
    have "timed_run rpn_do_ondelay p [Eval b d'] (me', t((On_delay, p) \<mapsto> d))
        = ([[Num 0]], me'\<lparr>r_cookie := 0\<rparr>, (t((On_delay, p) \<mapsto> d))((On_delay, p) := None))"
      by (rule ondelay_drop[OF c b])
    then show "\<exists>me' t'. timed_run rpn_do_ondelay p ((Eval a d # highs) @ [Eval b d']) (me, t)
               = (replicate (Suc (length highs)) [Num 0] @ [[Num 0]], me', t') \<and>
             r_cookie me' = 0 \<and> t' (On_delay, p) = None"
      unfolding timed_run_append run by simp
  qed
  have p4: "on_delay me1 = (me1\<lparr>r_cookie := r_cookie me1 XOR 2\<rparr>, [Call_rpn_run_again (r_dat me1)])"
    by (simp add: on_delay_def)
  have p5: "\<exists>me2 t2. timed_step rpn_do_ondelay p (Eval a1 d1) (me1, t1)
              = ([d_of_int (c_bool (bit (r_cookie me2) 1))], me2, t2) \<and>
            bit (r_cookie me2) 0 = (c_int a1 \<noteq> 0)"
    unfolding ondelay_step by (simp add: Let_def cookie_bit0)
  from p1 p2 p3 p4 p5 toggle_bits[of "r_cookie me1"] show ?thesis
    by blast
qed


theorem ondelay_behaviour_witness:
  "r_cookie rpn_zero = 0 \<and> (\<lambda>k. None :: double option) (On_delay, 7 :: ptr) = None \<and>
   c_int (Num 1) \<noteq> 0 \<and> list_all is_high [Eval (Num 1) (Num 5)] \<and> c_int (Num 0) = 0 \<and>
   (\<exists>me' t'. timed_run rpn_do_ondelay 7
        ((Eval (Num 1) (Num 5) # [Eval (Num 1) (Num 5)]) @ [Fire, Eval (Num 1) (Num 5)])
        (rpn_zero, \<lambda>k. None)
      = ([[Num 0], [Num 0], [], [Num 1]], me', t') \<and> r_cookie me' = 3 \<and> t' (On_delay, 7) = None) \<and>
   (\<exists>me' t'. timed_run rpn_do_ondelay 7
        ((Eval (Num 1) (Num 5) # [Eval (Num 1) (Num 5)]) @ [Eval (Num 0) (Num 5)])
        (rpn_zero, \<lambda>k. None)
      = ([[Num 0], [Num 0], [Num 0]], me', t') \<and> r_cookie me' = 0 \<and> t' (On_delay, 7) = None)"
proof -
  have h1: "r_cookie rpn_zero = 0" by (simp add: rpn_zero_def)
  have h2: "(\<lambda>k. None :: double option) (On_delay, 7 :: ptr) = None" by simp
  have h3: "c_int (Num 1) \<noteq> 0" unfolding c_int_1 by simp
  have h4: "list_all is_high [Eval (Num 1) (Num 5)]"
    by (simp add: is_high_def c_int_1 del: c_int.simps)
  have h5: "c_int (Num 0) = 0" by (rule c_int_0)
  note th = ondelay_behaviour[where me = rpn_zero and t = "\<lambda>k. None" and p = 7 and a = "Num 1"
      and highs = "[Eval (Num 1) (Num 5)]" and d = "Num 5" and d' = "Num 5", OF h1 h2 h3 h4]
  from th[where b = "Num 1"] h3 have a: "\<exists>me' t'. timed_run rpn_do_ondelay 7
        ((Eval (Num 1) (Num 5) # [Eval (Num 1) (Num 5)]) @ [Fire, Eval (Num 1) (Num 5)])
        (rpn_zero, \<lambda>k. None)
      = ([[Num 0], [Num 0], [], [Num 1]], me', t') \<and> r_cookie me' = 3 \<and> t' (On_delay, 7) = None"
    by (simp del: timed_run.simps c_int.simps)
  from th[where b = "Num 0"] h5 have b: "\<exists>me' t'. timed_run rpn_do_ondelay 7
        ((Eval (Num 1) (Num 5) # [Eval (Num 1) (Num 5)]) @ [Eval (Num 0) (Num 5)])
        (rpn_zero, \<lambda>k. None)
      = ([[Num 0], [Num 0], [Num 0]], me', t') \<and> r_cookie me' = 0 \<and> t' (On_delay, 7) = None"
    by (simp del: timed_run.simps c_int.simps)
  from h1 h2 h3 h4 h5 a b show ?thesis by blast
qed

subsection \<open>\<^verbatim>\<open>pulse\<close>\<close>

lemma cookie_bit1: "bit (((c :: int) AND - 2) OR c_bool b) 1 = bit c 1"
proof -
  have "bit (- 2 :: int) 1" by (simp add: bit_iff_odd_drop_bit)
  moreover have "\<not> bit (c_bool b) 1" by (simp add: c_bool_def bit_iff_odd_drop_bit)
  ultimately show ?thesis by (simp add: bit_or_iff bit_and_iff)
qed

lemma or_2_bit1: "bit ((c :: int) OR 2) 1"
  by (simp add: bit_or_iff bit_2_1)

lemma pulse_step_high_output:
  assumes "bit (r_cookie me) 1"
  shows "\<exists>me' t'. timed_step rpn_do_pulse p (Eval a d) (me, t) = ([Num 1], me', t') \<and>
           bit (r_cookie me') 1"
proof -
  define c1 where "c1 = (if c_int a \<noteq> 0 \<and> \<not> bit (r_cookie me) 0 then r_cookie me OR 2 else r_cookie me)"
  define c2 where "c2 = (c1 AND - 2) OR c_bool (c_int a \<noteq> 0)"
  have "bit c1 1" unfolding c1_def using assms by (simp add: or_2_bit1 del: One_nat_def)
  then have b: "bit c2 1" unfolding c2_def by (simp only: cookie_bit1)
  have "\<exists>t'. timed_step rpn_do_pulse p (Eval a d) (me, t)
      = ([d_of_int (c_bool (bit c2 1))], me\<lparr>r_cookie := c2\<rparr>, t')"
    unfolding pulse_step c1_def c2_def by (simp add: Let_def)
  with b show ?thesis by (auto simp: c_bool_def d_of_int_def)
qed

lemma pulse_evals:
  assumes "list_all is_eval evs" and "bit (r_cookie me) 1"
  shows "\<exists>me' t'. timed_run rpn_do_pulse p evs (me, t) = (replicate (length evs) [Num 1], me', t') \<and>
           bit (r_cookie me') 1"
  using assms
proof (induction evs arbitrary: me t)
  case Nil
  then show ?case by simp
next
  case (Cons e es)
  from Cons.prems(1) have he: "is_eval e" and r: "list_all is_eval es"
    by simp_all
  from he obtain a d where e: "e = Eval a d"
    by (cases e) (simp_all add: is_eval_def)
  from pulse_step_high_output[OF Cons.prems(2), of p a d t] obtain me1 t1 where
    st: "timed_step rpn_do_pulse p e (me, t) = ([Num 1], me1, t1)" and b: "bit (r_cookie me1) 1"
    unfolding e by auto
  from Cons.IH[OF r b, of t1] obtain me' t' where
    "timed_run rpn_do_pulse p es (me1, t1) = (replicate (length es) [Num 1], me', t')"
    "bit (r_cookie me') 1"
    by auto
  with st show ?case by (simp del: timed_step.simps)
qed

lemma pulse_highs:
  assumes "list_all is_high highs" and "r_cookie me = 3"
  shows "\<exists>me'. timed_run rpn_do_pulse p highs (me, t) = (replicate (length highs) [Num 1], me', t) \<and>
           r_cookie me' = 3"
  using assms
proof (induction highs arbitrary: me)
  case Nil
  then show ?case by simp
next
  case (Cons e es)
  from Cons.prems(1) have he: "is_high e" and r: "list_all is_high es"
    by simp_all
  from he obtain a d where e: "e = Eval a d" and h: "c_int a \<noteq> 0"
    by (cases e) (simp_all add: is_high_def)
  have st: "timed_step rpn_do_pulse p e (me, t) = ([Num 1], me\<lparr>r_cookie := 3\<rparr>, t)"
    unfolding e pulse_step using h Cons.prems(2) by (simp add: Let_def c_bool_def d_of_int_def)
  from Cons.IH[OF r, of "me\<lparr>r_cookie := 3\<rparr>"] obtain me' where
    "timed_run rpn_do_pulse p es (me\<lparr>r_cookie := 3\<rparr>, t) = (replicate (length es) [Num 1], me', t)"
    "r_cookie me' = 3"
    by auto
  with st show ?case by (simp del: timed_step.simps)
qed

lemma pulse_rise:
  assumes "r_cookie me = 0 \<or> r_cookie me = 2" and "c_int a \<noteq> 0"
  shows "timed_step rpn_do_pulse p (Eval a d) (me, t)
           = ([Num 1], me\<lparr>r_cookie := 3\<rparr>, t((On_delay, p) \<mapsto> d))"
  unfolding pulse_step using assms by (auto simp: Let_def c_bool_def d_of_int_def)

lemma pulse_fall:
  assumes "r_cookie me = 3" and "c_int b = 0"
  shows "timed_step rpn_do_pulse p (Eval b d) (me, t)
           = ([Num 1], me\<lparr>r_cookie := 2\<rparr>, t((On_delay, p) := None))"
  unfolding pulse_step using assms by (simp add: Let_def c_bool_def d_of_int_def)

lemma pulse_fire:
  assumes "r_cookie me = 3" and "t (On_delay, p) = Some d"
  shows "timed_step rpn_do_pulse p Fire (me, t) = ([], me\<lparr>r_cookie := 1\<rparr>, t((On_delay, p) := None))"
  using assms by (simp add: on_delay_def)

lemma pulse_after_fire:
  assumes "r_cookie me = 1"
  shows "\<exists>me' t'. timed_step rpn_do_pulse p (Eval a d) (me, t) = ([Num 0], me', t') \<and>
           \<not> bit (r_cookie me') 1"
  unfolding pulse_step using assms by (simp add: Let_def c_bool_def d_of_int_def)


lemma pulse_to_fall:
  assumes "r_cookie me = 0" and "c_int a \<noteq> 0" and "list_all is_high highs" and "c_int b = 0"
  shows "\<exists>me1 me2. timed_run rpn_do_pulse p (Eval a d # highs) (me, t)
             = (replicate (Suc (length highs)) [Num 1], me1, t((On_delay, p) \<mapsto> d)) \<and>
           r_cookie me1 = 3 \<and>
           timed_run rpn_do_pulse p ((Eval a d # highs) @ [Eval b d']) (me, t)
             = (replicate (Suc (length highs)) [Num 1] @ [[Num 1]], me2, t((On_delay, p) := None)) \<and>
           r_cookie me2 = 2"
proof -
  have st: "timed_step rpn_do_pulse p (Eval a d) (me, t)
      = ([Num 1], me\<lparr>r_cookie := 3\<rparr>, t((On_delay, p) \<mapsto> d))"
    using assms(1,2) by (intro pulse_rise) simp_all
  from pulse_highs[OF assms(3), of "me\<lparr>r_cookie := 3\<rparr>" p "t((On_delay, p) \<mapsto> d)"]
  obtain me1 where h: "timed_run rpn_do_pulse p highs (me\<lparr>r_cookie := 3\<rparr>, t((On_delay, p) \<mapsto> d))
      = (replicate (length highs) [Num 1], me1, t((On_delay, p) \<mapsto> d))" and c: "r_cookie me1 = 3"
    by auto
  have run: "timed_run rpn_do_pulse p (Eval a d # highs) (me, t)
      = (replicate (Suc (length highs)) [Num 1], me1, t((On_delay, p) \<mapsto> d))"
    using st h by (simp del: timed_step.simps)
  have f: "timed_step rpn_do_pulse p (Eval b d') (me1, t((On_delay, p) \<mapsto> d))
      = ([Num 1], me1\<lparr>r_cookie := 2\<rparr>, (t((On_delay, p) \<mapsto> d))((On_delay, p) := None))"
    by (rule pulse_fall[OF c assms(4)])
  have "timed_run rpn_do_pulse p ((Eval a d # highs) @ [Eval b d']) (me, t)
      = (replicate (Suc (length highs)) [Num 1] @ [[Num 1]], me1\<lparr>r_cookie := 2\<rparr>,
         t((On_delay, p) := None))"
    unfolding timed_run_append run using f by (simp del: timed_step.simps)
  with run c show ?thesis by auto
qed

text \<open>
  Claim C10. \<^verbatim>\<open>pulse\<close> puts out 1 from the rising edge of its input on, with a timer
  pending. When the input falls before the timer has fired, the evaluation removes
  the timer and leaves bit 1 of the state set: the output is 1 in that evaluation and
  in every evaluation that follows, whatever the inputs, as long as no timer fires.
  A later rising edge adds a timer again, and when that one fires bit 1 is toggled and
  the output is 0.
\<close>

theorem pulse_stays_high:
  assumes "r_cookie me = 0" and "c_int a \<noteq> 0" and "list_all is_high highs" and "c_int b = 0"
    and "list_all is_eval evs"
  shows "(\<exists>me1 t1. timed_run rpn_do_pulse p (Eval a d # highs) (me, t)
              = (replicate (Suc (length highs)) [Num 1], me1, t1) \<and>
            r_cookie me1 = 3 \<and> t1 (On_delay, p) = Some d) \<and>
         (\<exists>me2 t2. timed_run rpn_do_pulse p ((Eval a d # highs) @ [Eval b d']) (me, t)
              = (replicate (Suc (length highs)) [Num 1] @ [[Num 1]], me2, t2) \<and>
            r_cookie me2 = 2 \<and> bit (r_cookie me2) 1 \<and> t2 (On_delay, p) = None) \<and>
         (\<exists>me3 t3. timed_run rpn_do_pulse p (((Eval a d # highs) @ [Eval b d']) @ evs) (me, t)
              = ((replicate (Suc (length highs)) [Num 1] @ [[Num 1]]) @ replicate (length evs) [Num 1],
                 me3, t3) \<and>
            bit (r_cookie me3) 1) \<and>
         (c_int a2 \<noteq> 0 \<longrightarrow>
            (\<exists>me4 t4. timed_run rpn_do_pulse p
                 (((Eval a d # highs) @ [Eval b d']) @ [Eval a2 d2, Fire, Eval a3 d3]) (me, t)
               = ((replicate (Suc (length highs)) [Num 1] @ [[Num 1]]) @ [[Num 1], [], [Num 0]],
                  me4, t4) \<and>
             \<not> bit (r_cookie me4) 1))"
proof -
  from pulse_to_fall[OF assms(1-4), of p d t d'] obtain me1 me2 where
    r1: "timed_run rpn_do_pulse p (Eval a d # highs) (me, t)
       = (replicate (Suc (length highs)) [Num 1], me1, t((On_delay, p) \<mapsto> d))"
    and c1: "r_cookie me1 = 3"
    and r2: "timed_run rpn_do_pulse p ((Eval a d # highs) @ [Eval b d']) (me, t)
       = (replicate (Suc (length highs)) [Num 1] @ [[Num 1]], me2, t((On_delay, p) := None))"
    and c2: "r_cookie me2 = 2"
    by blast
  have b2: "bit (r_cookie me2) 1" unfolding c2 by (rule bit_2_1)
  have p1: "\<exists>me1 t1. timed_run rpn_do_pulse p (Eval a d # highs) (me, t)
              = (replicate (Suc (length highs)) [Num 1], me1, t1) \<and>
            r_cookie me1 = 3 \<and> t1 (On_delay, p) = Some d"
    using r1 c1 by simp
  have p2: "\<exists>me2 t2. timed_run rpn_do_pulse p ((Eval a d # highs) @ [Eval b d']) (me, t)
              = (replicate (Suc (length highs)) [Num 1] @ [[Num 1]], me2, t2) \<and>
            r_cookie me2 = 2 \<and> bit (r_cookie me2) 1 \<and> t2 (On_delay, p) = None"
    using r2 c2 b2 by simp
  have p3: "\<exists>me3 t3. timed_run rpn_do_pulse p (((Eval a d # highs) @ [Eval b d']) @ evs) (me, t)
              = ((replicate (Suc (length highs)) [Num 1] @ [[Num 1]]) @ replicate (length evs) [Num 1],
                 me3, t3) \<and>
            bit (r_cookie me3) 1"
  proof -
    from pulse_evals[OF assms(5) b2, of p "t((On_delay, p) := None)"] obtain me3 t3 where
      "timed_run rpn_do_pulse p evs (me2, t((On_delay, p) := None))
         = (replicate (length evs) [Num 1], me3, t3)" "bit (r_cookie me3) 1"
      by blast
    then show ?thesis
      unfolding timed_run_append[of _ _ "(Eval a d # highs) @ [Eval b d']"] r2 by simp
  qed
  have p4: "c_int a2 \<noteq> 0 \<longrightarrow>
            (\<exists>me4 t4. timed_run rpn_do_pulse p
                 (((Eval a d # highs) @ [Eval b d']) @ [Eval a2 d2, Fire, Eval a3 d3]) (me, t)
               = ((replicate (Suc (length highs)) [Num 1] @ [[Num 1]]) @ [[Num 1], [], [Num 0]],
                  me4, t4) \<and>
             \<not> bit (r_cookie me4) 1)"
  proof
    assume h: "c_int a2 \<noteq> 0"
    let ?t1 = "(t((On_delay, p) := None))((On_delay, p) \<mapsto> d2)"
    have s1: "timed_step rpn_do_pulse p (Eval a2 d2) (me2, t((On_delay, p) := None))
        = ([Num 1], me2\<lparr>r_cookie := 3\<rparr>, ?t1)"
      using c2 h by (intro pulse_rise) simp_all
    have s2: "timed_step rpn_do_pulse p Fire (me2\<lparr>r_cookie := 3\<rparr>, ?t1)
        = ([], me2\<lparr>r_cookie := 3\<rparr>\<lparr>r_cookie := 1\<rparr>, ?t1((On_delay, p) := None))"
      by (rule pulse_fire[where d = d2]) simp_all
    from pulse_after_fire[of "me2\<lparr>r_cookie := 3\<rparr>\<lparr>r_cookie := 1\<rparr>" p a3 d3 "?t1((On_delay, p) := None)"]
    obtain me4 t4 where s3: "timed_step rpn_do_pulse p (Eval a3 d3)
          (me2\<lparr>r_cookie := 3\<rparr>\<lparr>r_cookie := 1\<rparr>, ?t1((On_delay, p) := None)) = ([Num 0], me4, t4)"
      and c4: "\<not> bit (r_cookie me4) 1"
      by auto
    have "timed_run rpn_do_pulse p [Eval a2 d2, Fire, Eval a3 d3] (me2, t((On_delay, p) := None))
        = ([[Num 1], [], [Num 0]], me4, t4)"
      using s1 s2 s3 by (simp del: timed_step.simps)
    with c4 show "\<exists>me4 t4. timed_run rpn_do_pulse p
                 (((Eval a d # highs) @ [Eval b d']) @ [Eval a2 d2, Fire, Eval a3 d3]) (me, t)
               = ((replicate (Suc (length highs)) [Num 1] @ [[Num 1]]) @ [[Num 1], [], [Num 0]],
                  me4, t4) \<and>
             \<not> bit (r_cookie me4) 1"
      unfolding timed_run_append[of _ _ "(Eval a d # highs) @ [Eval b d']"] r2 by simp
  qed
  from p1 p2 p3 p4 show ?thesis by blast
qed

theorem pulse_stays_high_witness:
  "r_cookie rpn_zero = 0 \<and> c_int (Num 1) \<noteq> 0 \<and> list_all is_high [] \<and> c_int (Num 0) = 0 \<and>
   list_all is_eval [Eval (Num 0) (Num 2), Eval (Num 0) (Num 2)] \<and>
   (\<exists>me3 t3. timed_run rpn_do_pulse 7
        (((Eval (Num 1) (Num 2) # []) @ [Eval (Num 0) (Num 2)])
           @ [Eval (Num 0) (Num 2), Eval (Num 0) (Num 2)])
        (rpn_zero, \<lambda>k. None)
      = ([[Num 1], [Num 1], [Num 1], [Num 1]], me3, t3) \<and> bit (r_cookie me3) 1)"
proof -
  have h1: "r_cookie rpn_zero = 0" by (simp add: rpn_zero_def)
  have h2: "c_int (Num 1) \<noteq> 0" unfolding c_int_1 by simp
  have h3: "list_all is_high []" by simp
  have h4: "c_int (Num 0) = 0" by (rule c_int_0)
  have h5: "list_all is_eval [Eval (Num 0) (Num 2), Eval (Num 0) (Num 2)]"
    by (simp add: is_eval_def)
  note th = pulse_stays_high[where me = rpn_zero and t = "\<lambda>k. None" and p = 7 and a = "Num 1"
      and d = "Num 2" and d' = "Num 2" and b = "Num 0", OF h1 h2 h3 h4 h5]
  from conjunct1[OF conjunct2[OF conjunct2[OF th]]] have
    "\<exists>me3 t3. timed_run rpn_do_pulse 7
        (((Eval (Num 1) (Num 2) # []) @ [Eval (Num 0) (Num 2)])
           @ [Eval (Num 0) (Num 2), Eval (Num 0) (Num 2)])
        (rpn_zero, \<lambda>k. None)
      = ([[Num 1], [Num 1], [Num 1], [Num 1]], me3, t3) \<and> bit (r_cookie me3) 1"
    by (simp del: timed_run.simps c_int.simps)
  with h1 h2 h3 h4 h5 show ?thesis by blast
qed

subsection \<open>What the parser builds\<close>

text \<open>The variables \<^verbatim>\<open>root\<close> and \<^verbatim>\<open>last\<close> after \<open>k\<close> nodes were made from the address \<open>b\<close> on.\<close>

lemma token_node_fields:
  assumes "rpn_token_node tok = Some node"
  shows "r_next node = None" and "r_dat node = 0" and "r_cookie node = 0" and "r_run node \<noteq> None"
  using assms
  by (auto simp: rpn_token_node_def rpn_zero_def split: if_splits option.splits)

lemma chain_heap_snoc:
  assumes "r_next node = None"
  shows "(\<lambda>a. if a = b + length pre then Some (node\<lparr>r_dat := dat\<rparr>)
              else if pre \<noteq> [] \<and> a = b + length pre - 1
              then Some ((pre ! (length pre - 1))\<lparr>r_next := Some (b + length pre), r_dat := dat\<rparr>)
              else chain_heap h b dat pre 0 a)
         = chain_heap h b dat (pre @ [node]) 0"
proof
  fix a
  define k where "k = length pre"
  have kp: "(pre \<noteq> []) = (0 < k)" by (simp add: k_def)
  consider (1) "a < b" | (2) "b \<le> a" "a + 1 < b + k" | (3) "0 < k" "a + 1 = b + k"
    | (4) "a = b + k" | (5) "b + k < a"
    by atomize_elim presburger
  then have "(if a = b + k then Some (node\<lparr>r_dat := dat\<rparr>)
              else if 0 < k \<and> a = b + k - 1
              then Some ((pre ! (k - 1))\<lparr>r_next := Some (b + k), r_dat := dat\<rparr>)
              else chain_heap h b dat pre 0 a)
         = chain_heap h b dat (pre @ [node]) 0 a"
  proof cases
    case 1
    then have n: "(0 < k \<and> a = b + k - 1) = False" by presburger
    from 1 show ?thesis unfolding n by (simp add: chain_heap_def flip: k_def)
  next
    case 2
    then have n: "(0 < k \<and> a = b + k - 1) = False" by presburger
    from 2 show ?thesis unfolding n by (simp add: chain_heap_def nth_append flip: k_def)
  next
    case 3
    then have "a = b + k - 1" "a - b = k - 1" "a < b + k" "b \<le> a" "a \<noteq> b + k"
      by linarith+
    with 3(1) show ?thesis by (simp add: chain_heap_def nth_append flip: k_def)
  next
    case 4
    have e: "(pre @ [node]) ! k = node" by (simp add: k_def)
    have u: "node\<lparr>r_next := None\<rparr> = node" using assms by (cases node) simp
    from 4 show ?thesis by (simp add: chain_heap_def e u flip: k_def)
  next
    case 5
    then have n: "(0 < k \<and> a = b + k - 1) = False" by presburger
    from 5 show ?thesis unfolding n by (simp add: chain_heap_def flip: k_def)
  qed
  then show "(if a = b + length pre then Some (node\<lparr>r_dat := dat\<rparr>)
              else if pre \<noteq> [] \<and> a = b + length pre - 1
              then Some ((pre ! (length pre - 1))\<lparr>r_next := Some (b + length pre), r_dat := dat\<rparr>)
              else chain_heap h b dat pre 0 a)
         = chain_heap h b dat (pre @ [node]) 0 a"
    unfolding kp k_def .
qed


lemma parse_loop_step:
  assumes "rpn_token_node tok = Some node"
  shows "rpn_parse_loop (tok # toks) dat (if pre = [] then None else Some b)
           (if pre = [] then None else Some (b + length pre - 1))
           (w\<lparr>w_brk := b + length pre, w_heap := chain_heap h b dat pre 0\<rparr>)
         = rpn_parse_loop toks dat (Some b) (Some (b + length pre))
             (w\<lparr>w_brk := b + length pre + 1, w_heap := chain_heap h b dat (pre @ [node]) 0\<rparr>)"
proof -
  note nx = token_node_fields(1)[OF assms]
  let ?p = "b + length pre"
  let ?ch = "chain_heap h b dat pre 0"
  let ?W = "w\<lparr>w_brk := ?p, w_heap := ?ch\<rparr>"
  let ?W1 = "w\<lparr>w_brk := ?p + 1, w_heap := ?ch(?p \<mapsto> rpn_zero)\<rparr>"
  let ?W2 = "w\<lparr>w_brk := ?p + 1, w_heap := ?ch(?p \<mapsto> node\<lparr>r_dat := dat\<rparr>)\<rparr>"
  let ?W3 = "w\<lparr>w_brk := ?p + 1, w_heap := chain_heap h b dat (pre @ [node]) 0\<rparr>"
  have c: "rpn_create ?W = (?p, ?W1)"
    by (simp add: rpn_create_def set_node_def)
  have s: "set_node ?W1 ?p (node\<lparr>r_dat := dat\<rparr>) = ?W2"
    by (simp add: set_node_def)
  show ?thesis
  proof (cases "pre = []")
    case True
    have "?ch(?p \<mapsto> node\<lparr>r_dat := dat\<rparr>) = chain_heap h b dat (pre @ [node]) 0"
      unfolding chain_heap_snoc[OF nx, of b pre dat h, symmetric] using True
      by (simp add: fun_eq_iff)
    then have e: "?W2 = ?W3" by simp
    have "rpn_parse_loop (tok # toks) dat None None ?W
        = rpn_parse_loop toks dat (Some ?p) (Some ?p) ?W2"
      unfolding rpn_parse_loop.simps assms option.case c prod.case Let_def s by simp
    with True e show ?thesis by simp
  next
    case False
    let ?l = "b + length pre - 1"
    let ?ln = "(pre ! (length pre - 1))\<lparr>r_next := None, r_dat := dat\<rparr>"
    from False have lp: "?l \<noteq> ?p" "?l < ?p" "b \<le> ?l" "\<not> ?l + 1 < ?p" "?l - b = length pre - 1"
      by (cases pre; simp)+
    have look: "w_heap ?W2 ?l = Some ?ln"
      using lp by (simp add: chain_heap_def)
    have "(?ch(?p \<mapsto> node\<lparr>r_dat := dat\<rparr>))(?l \<mapsto> ?ln\<lparr>r_next := Some ?p\<rparr>)
          = chain_heap h b dat (pre @ [node]) 0"
      unfolding chain_heap_snoc[OF nx, of b pre dat h, symmetric] using False lp(1)
      by (auto simp: fun_eq_iff)
    then have e: "set_node ?W2 ?l (?ln\<lparr>r_next := Some ?p\<rparr>) = ?W3"
      by (simp add: set_node_def)
    have "rpn_parse_loop (tok # toks) dat (Some b) (Some ?l) ?W
        = rpn_parse_loop toks dat (Some b) (Some ?p) ?W3"
      unfolding rpn_parse_loop.simps assms option.case c prod.case Let_def s look e by simp
    with False show ?thesis by simp
  qed
qed

lemma parse_loop_good:
  assumes "map rpn_token_node toks = map Some nodes"
  shows "rpn_parse_loop (toks @ rest) dat (if pre = [] then None else Some b)
           (if pre = [] then None else Some (b + length pre - 1))
           (w\<lparr>w_brk := b + length pre, w_heap := chain_heap h b dat pre 0\<rparr>)
         = rpn_parse_loop rest dat (if pre @ nodes = [] then None else Some b)
             (if pre @ nodes = [] then None else Some (b + length (pre @ nodes) - 1))
             (w\<lparr>w_brk := b + length (pre @ nodes), w_heap := chain_heap h b dat (pre @ nodes) 0\<rparr>)"
  using assms
proof (induction toks arbitrary: pre nodes)
  case Nil
  then show ?case by simp
next
  case (Cons tok toks)
  from Cons.prems obtain node nodes' where n: "nodes = node # nodes'"
    and t: "rpn_token_node tok = Some node" and r: "map rpn_token_node toks = map Some nodes'"
    by (cases nodes) auto
  have "rpn_parse_loop ((tok # toks) @ rest) dat (if pre = [] then None else Some b)
           (if pre = [] then None else Some (b + length pre - 1))
           (w\<lparr>w_brk := b + length pre, w_heap := chain_heap h b dat pre 0\<rparr>)
      = rpn_parse_loop (toks @ rest) dat (Some b) (Some (b + length pre))
             (w\<lparr>w_brk := b + length pre + 1, w_heap := chain_heap h b dat (pre @ [node]) 0\<rparr>)"
    using parse_loop_step[OF t, where toks = "toks @ rest"] by simp
  also have "\<dots> = rpn_parse_loop rest dat (if (pre @ [node]) @ nodes' = [] then None else Some b)
             (if (pre @ [node]) @ nodes' = [] then None
              else Some (b + length ((pre @ [node]) @ nodes') - 1))
             (w\<lparr>w_brk := b + length ((pre @ [node]) @ nodes'),
                w_heap := chain_heap h b dat ((pre @ [node]) @ nodes') 0\<rparr>)"
    using Cons.IH[OF r, of "pre @ [node]"] by simp
  finally show ?case unfolding n by simp
qed

lemma chain_heap_nil: "chain_heap h b dat [] 0 = h"
  by (auto simp: chain_heap_def fun_eq_iff)

lemma chain_heap_done: "chain_heap h b dat nodes (length nodes) = h"
  by (auto simp: chain_heap_def fun_eq_iff)

lemma chain_heap_at:
  assumes "i \<le> j" and "j < length nodes"
  shows "chain_heap h b dat nodes i (b + j) =
           Some ((nodes ! j)\<lparr>r_next := (if j + 1 < length nodes then Some (b + j + 1) else None),
                              r_dat := dat\<rparr>)"
  using assms by (simp add: chain_heap_def)

lemma chain_heap_free:
  assumes "h (b + i) = None"
  shows "(chain_heap h b dat nodes i)(b + i := None) = chain_heap h b dat nodes (Suc i)"
  using assms by (auto simp: chain_heap_def fun_eq_iff)

lemma rpn_free_chain_null: "rpn_free_chain None w = Some w"
  by (subst rpn_free_chain.simps) simp

lemma rpn_free_chain_node:
  assumes "w_heap w p = Some node"
  shows "rpn_free_chain (Some p) w = rpn_free_chain (r_next node) (rpn_free p w)"
  using assms by (subst rpn_free_chain.simps) simp

lemma free_chain_built:
  assumes "\<forall>a. b \<le> a \<longrightarrow> h a = None" and "i \<le> length nodes"
  shows "rpn_free_chain (if i < length nodes then Some (b + i) else None)
           (w\<lparr>w_brk := k, w_heap := chain_heap h b dat nodes i\<rparr>)
         = Some (w\<lparr>w_brk := k, w_heap := h\<rparr>)"
  using assms(2)
proof (induction "length nodes - i" arbitrary: i)
  case 0
  then have "i = length nodes" by simp
  then show ?case by (simp add: rpn_free_chain_null chain_heap_done)
next
  case (Suc n)
  then have lt: "i < length nodes" by simp
  let ?W = "w\<lparr>w_brk := k, w_heap := chain_heap h b dat nodes i\<rparr>"
  let ?node = "(nodes ! i)\<lparr>r_next := (if i + 1 < length nodes then Some (b + i + 1) else None),
                             r_dat := dat\<rparr>"
  have look: "w_heap ?W (b + i) = Some ?node"
    using chain_heap_at[OF le_refl lt, of h b dat] by simp
  have hb: "h (b + i) = None" using assms(1) by simp
  have fr: "rpn_free (b + i) ?W = w\<lparr>w_brk := k, w_heap := chain_heap h b dat nodes (Suc i)\<rparr>"
    using chain_heap_free[where h = h and b = b and i = i and dat = dat and nodes = nodes, OF hb]
    by (simp add: rpn_free_def)
  have nx: "r_next ?node = (if Suc i < length nodes then Some (b + Suc i) else None)"
    by simp
  have "rpn_free_chain (Some (b + i)) ?W
      = rpn_free_chain (if Suc i < length nodes then Some (b + Suc i) else None)
          (w\<lparr>w_brk := k, w_heap := chain_heap h b dat nodes (Suc i)\<rparr>)"
    unfolding rpn_free_chain_node[OF look] fr nx ..
  also have "\<dots> = Some (w\<lparr>w_brk := k, w_heap := h\<rparr>)"
    using Suc.hyps(2) lt by (intro Suc.hyps(1)) simp_all
  finally show ?case using lt by simp
qed

lemma is_chain_built:
  assumes "i \<le> length nodes"
  shows "is_chain (chain_heap h b dat nodes 0) (if i < length nodes then Some (b + i) else None)
           (map (\<lambda>j. (nodes ! j)\<lparr>r_next := (if j + 1 < length nodes then Some (b + j + 1) else None),
                                   r_dat := dat\<rparr>) [i..<length nodes])"
  using assms
proof (induction "length nodes - i" arbitrary: i)
  case 0
  then show ?case by simp
next
  case (Suc n)
  then have lt: "i < length nodes" by simp
  have up: "[i..<length nodes] = i # [Suc i..<length nodes]"
    using lt by (simp add: upt_conv_Cons)
  have ih: "is_chain (chain_heap h b dat nodes 0)
      (if Suc i < length nodes then Some (b + Suc i) else None)
      (map (\<lambda>j. (nodes ! j)\<lparr>r_next := (if j + 1 < length nodes then Some (b + j + 1) else None),
                              r_dat := dat\<rparr>) [Suc i..<length nodes])"
    using Suc.hyps(2) lt by (intro Suc.hyps(1)) simp_all
  have look: "chain_heap h b dat nodes 0 (b + i) =
      Some ((nodes ! i)\<lparr>r_next := (if i + 1 < length nodes then Some (b + i + 1) else None),
                         r_dat := dat\<rparr>)"
    using lt by (intro chain_heap_at) simp_all
  show ?case
  proof (cases "Suc i < length nodes")
    case True
    with ih look lt show ?thesis unfolding up by simp
  next
    case False
    with ih look lt show ?thesis unfolding up by simp
  qed
qed

lemma token_node_none:
  "(rpn_token_node tok = None) = (\<not> is_literal tok \<and> \<not> is_env tok \<and> do_lookup tok = None)"
  by (auto simp: rpn_token_node_def split: option.splits)

lemma rpn_parse_start:
  "rpn_parse cstr dat w =
     rpn_parse_loop (strtok_all cstr [CHR '' '', CHR 0x09] @ []) dat
       (if ([] :: rpn list) = [] then None else Some (w_brk w))
       (if ([] :: rpn list) = [] then None else Some (w_brk w + length ([] :: rpn list) - 1))
       (w\<lparr>w_brk := w_brk w + length ([] :: rpn list),
          w_heap := chain_heap (w_heap w) (w_brk w) dat [] 0\<rparr>)"
  by (simp add: rpn_parse_def chain_heap_nil)

lemma known_tokens_nodes:
  assumes "\<forall>tok\<in>set toks. rpn_token_node tok \<noteq> None"
  shows "\<exists>nodes. map rpn_token_node toks = map Some nodes"
  using assms
proof (induction toks)
  case Nil
  then show ?case by simp
next
  case (Cons tok toks)
  then obtain nodes node where "map rpn_token_node toks = map Some nodes"
    "rpn_token_node tok = Some node"
    by auto
  then have "map rpn_token_node (tok # toks) = map Some (node # nodes)" by simp
  then show ?case by blast
qed

lemma parse_fails:
  assumes ok: "world_ok w"
    and split: "strtok_all cstr [CHR '' '', CHR 0x09] = good @ bad # rest"
    and good: "\<forall>tok\<in>set good. rpn_token_node tok \<noteq> None"
    and bad: "rpn_token_node bad = None"
  shows "rpn_parse cstr dat w = Some (None, w\<lparr>w_brk := w_brk w + length good, w_heap := w_heap w\<rparr>)"
proof -
  from known_tokens_nodes[OF good] obtain nodes where n: "map rpn_token_node good = map Some nodes"
    by blast
  then have len: "length nodes = length good"
    by (metis length_map)
  let ?b = "w_brk w" and ?h = "w_heap w"
  let ?W = "w\<lparr>w_brk := ?b + length ([] @ nodes), w_heap := chain_heap ?h ?b dat ([] @ nodes) 0\<rparr>"
  have "rpn_parse cstr dat w =
      rpn_parse_loop (good @ bad # rest) dat
       (if ([] :: rpn list) = [] then None else Some ?b)
       (if ([] :: rpn list) = [] then None else Some (?b + length ([] :: rpn list) - 1))
       (w\<lparr>w_brk := ?b + length ([] :: rpn list), w_heap := chain_heap ?h ?b dat [] 0\<rparr>)"
    unfolding rpn_parse_start split by simp
  also have "\<dots> = rpn_parse_loop (bad # rest) dat (if [] @ nodes = [] then None else Some ?b)
      (if [] @ nodes = [] then None else Some (?b + length ([] @ nodes) - 1)) ?W"
    by (rule parse_loop_good[OF n])
  also have "\<dots> = Some (None, w\<lparr>w_brk := ?b + length good, w_heap := ?h\<rparr>)"
  proof (cases "nodes = []")
    case True
    with len show ?thesis by (simp add: bad chain_heap_nil)
  next
    case False
    have free: "\<forall>a. ?b \<le> a \<longrightarrow> ?h a = None"
      using ok by (simp add: world_ok_def)
    from False have i: "(if 0 < length nodes then Some (?b + 0) else None) = Some ?b"
      by simp
    have "rpn_free_chain (Some ?b)
        (w\<lparr>w_brk := ?b + length nodes, w_heap := chain_heap ?h ?b dat nodes 0\<rparr>)
        = Some (w\<lparr>w_brk := ?b + length nodes, w_heap := ?h\<rparr>)"
      using free_chain_built[where i = 0 and nodes = nodes and w = w and k = "?b + length nodes"
          and dat = dat, OF free]
      unfolding i by simp
    with False len show ?thesis by (simp add: bad)
  qed
  finally show ?thesis .
qed

lemma built_nodes_tokens:
  assumes "map rpn_token_node toks = map Some nodes"
  shows "map rpn_token_node toks =
           map (\<lambda>n. Some (n\<lparr>r_next := None, r_dat := 0\<rparr>))
             (map (\<lambda>j. (nodes ! j)\<lparr>r_next := (if j + 1 < length nodes then Some (b + j + 1) else None),
                                     r_dat := dat\<rparr>) [0..<length nodes])"
proof -
  have f: "\<And>j. j < length nodes \<Longrightarrow> (nodes ! j)\<lparr>r_next := None, r_dat := 0\<rparr> = nodes ! j"
  proof -
    fix j assume j: "j < length nodes"
    from assms have "length toks = length nodes" by (metis length_map)
    with assms j have "rpn_token_node (toks ! j) = Some (nodes ! j)"
      by (metis nth_map)
    from token_node_fields(1,2)[OF this] show "(nodes ! j)\<lparr>r_next := None, r_dat := 0\<rparr> = nodes ! j"
      by (cases "nodes ! j") simp
  qed
  have "map (\<lambda>n. Some (n\<lparr>r_next := None, r_dat := 0\<rparr>))
             (map (\<lambda>j. (nodes ! j)\<lparr>r_next := (if j + 1 < length nodes then Some (b + j + 1) else None),
                                     r_dat := dat\<rparr>) [0..<length nodes])
        = map (\<lambda>j. Some (nodes ! j)) [0..<length nodes]"
    using f by simp
  also have "\<dots> = map Some (map (\<lambda>j. nodes ! j) [0..<length nodes])"
    by simp
  also have "\<dots> = map Some nodes"
    by (simp only: map_nth)
  finally show ?thesis using assms by simp
qed

lemma parse_succeeds:
  assumes known: "map rpn_token_node (strtok_all cstr [CHR '' '', CHR 0x09]) = map Some nodes"
  shows "rpn_parse cstr dat w =
           Some (if nodes = [] then None else Some (w_brk w),
                 w\<lparr>w_brk := w_brk w + length nodes,
                    w_heap := chain_heap (w_heap w) (w_brk w) dat nodes 0\<rparr>)"
  unfolding rpn_parse_start parse_loop_good[OF known] by simp

text \<open>
  Claim C3. Compilation is atomic. \<^verbatim>\<open>rpn_parse\<close> returns for every source text. When
  one of the tokens is no number, no reference \<^verbatim>\<open>${name}\<close> or \<^verbatim>\<open>${name,options}\<close> and
  no keyword of the table, it returns the null pointer and has freed every node it
  made: the store holds the nodes it held before the call and no other. When every
  token is known, the result is the complete chain, one node for each token in
  their order, each with the owner it was compiled for. A chain for a part of the
  tokens is never returned.
\<close>

theorem parse_atomic:
  assumes "world_ok w"
  shows "\<exists>rpn w'. rpn_parse cstr dat w = Some (rpn, w') \<and>
           w_log w' = w_log w \<and> w_clock w' = w_clock w \<and>
           ((\<exists>tok\<in>set (strtok_all cstr [CHR '' '', CHR 0x09]).
               \<not> is_literal tok \<and> \<not> is_env tok \<and> do_lookup tok = None) \<longrightarrow>
              rpn = None \<and> w_heap w' = w_heap w) \<and>
           ((\<forall>tok\<in>set (strtok_all cstr [CHR '' '', CHR 0x09]).
               is_literal tok \<or> is_env tok \<or> do_lookup tok \<noteq> None) \<longrightarrow>
              (\<exists>chain. is_chain (w_heap w') rpn chain \<and>
                 map rpn_token_node (strtok_all cstr [CHR '' '', CHR 0x09])
                   = map (\<lambda>n. Some (n\<lparr>r_next := None, r_dat := 0\<rparr>)) chain \<and>
                 (\<forall>n\<in>set chain. r_dat n = dat)))"
proof (cases "\<exists>tok\<in>set (strtok_all cstr [CHR '' '', CHR 0x09]). rpn_token_node tok = None")
  case True
  then obtain good bad rest where
    sp: "strtok_all cstr [CHR '' '', CHR 0x09] = good @ bad # rest"
    and bad: "rpn_token_node bad = None"
    and good: "\<forall>tok\<in>set good. rpn_token_node tok \<noteq> None"
    using split_list_first_prop[of "strtok_all cstr [CHR '' '', CHR 0x09]" "\<lambda>tok. rpn_token_node tok = None"]
    by blast
  have r: "rpn_parse cstr dat w = Some (None, w\<lparr>w_brk := w_brk w + length good, w_heap := w_heap w\<rparr>)"
    by (rule parse_fails[OF assms sp good bad])
  from True have neg: "\<not> (\<forall>tok\<in>set (strtok_all cstr [CHR '' '', CHR 0x09]).
               is_literal tok \<or> is_env tok \<or> do_lookup tok \<noteq> None)"
    unfolding token_node_none by blast
  show ?thesis
  proof (intro exI conjI impI)
    show "rpn_parse cstr dat w = Some (None, w\<lparr>w_brk := w_brk w + length good, w_heap := w_heap w\<rparr>)"
      by (rule r)
  qed (use neg in simp_all)
next
  case False
  then have kn: "\<forall>tok\<in>set (strtok_all cstr [CHR '' '', CHR 0x09]). rpn_token_node tok \<noteq> None"
    by simp
  from known_tokens_nodes[OF this] obtain nodes where
    n: "map rpn_token_node (strtok_all cstr [CHR '' '', CHR 0x09]) = map Some nodes"
    by blast
  let ?chain = "map (\<lambda>j. (nodes ! j)\<lparr>r_next := (if j + 1 < length nodes then Some (w_brk w + j + 1) else None),
                                     r_dat := dat\<rparr>) [0..<length nodes]"
  let ?w' = "w\<lparr>w_brk := w_brk w + length nodes,
               w_heap := chain_heap (w_heap w) (w_brk w) dat nodes 0\<rparr>"
  let ?rpn = "if nodes = [] then None else Some (w_brk w)"
  have r: "rpn_parse cstr dat w = Some (?rpn, ?w')"
    by (rule parse_succeeds[OF n])
  have c0: "is_chain (chain_heap (w_heap w) (w_brk w) dat nodes 0)
      (if 0 < length nodes then Some (w_brk w + 0) else None) ?chain"
    by (rule is_chain_built) simp
  have c: "is_chain (w_heap ?w') ?rpn ?chain"
  proof (cases "nodes = []")
    case True
    with c0 show ?thesis by simp
  next
    case False
    with c0 show ?thesis by simp
  qed
  have t: "map rpn_token_node (strtok_all cstr [CHR '' '', CHR 0x09])
      = map (\<lambda>n. Some (n\<lparr>r_next := None, r_dat := 0\<rparr>)) ?chain"
    by (rule built_nodes_tokens[OF n])
  have d: "\<forall>n\<in>set ?chain. r_dat n = dat"
    by simp
  from kn have neg: "\<not> (\<exists>tok\<in>set (strtok_all cstr [CHR '' '', CHR 0x09]).
               \<not> is_literal tok \<and> \<not> is_env tok \<and> do_lookup tok = None)"
    unfolding token_node_none by blast
  show ?thesis
  proof (intro exI conjI impI)
    show "rpn_parse cstr dat w = Some (?rpn, ?w')"
      by (rule r)
    show "is_chain (w_heap ?w') ?rpn ?chain"
      by (rule c)
    show "map rpn_token_node (strtok_all cstr [CHR '' '', CHR 0x09])
      = map (\<lambda>n. Some (n\<lparr>r_next := None, r_dat := 0\<rparr>)) ?chain"
      by (rule t)
    show "\<forall>n\<in>set ?chain. r_dat n = dat"
      by (rule d)
  qed (use neg in simp_all)
qed

theorem parse_atomic_witness:
  "world_ok world_init \<and>
   ''bogus'' \<in> set (strtok_all ''3 bogus +'' [CHR '' '', CHR 0x09]) \<and>
   \<not> is_literal ''bogus'' \<and> \<not> is_env ''bogus'' \<and> do_lookup ''bogus'' = None \<and>
   (\<exists>w'. rpn_parse ''3 bogus +'' 0 world_init = Some (None, w') \<and>
      w_heap w' = w_heap world_init)"
proof -
  have ok: "world_ok world_init" by (simp add: world_ok_def world_init_def)
  have t: "strtok_all ''3 bogus +'' [CHR '' '', CHR 0x09] = [''3'', ''bogus'', ''+'']"
    by code_simp
  have b: "\<not> is_literal ''bogus''" "\<not> is_env ''bogus''" "do_lookup ''bogus'' = None"
    by code_simp+
  from parse_atomic[OF ok, of "''3 bogus +''" 0] t b
  have "\<exists>w'. rpn_parse ''3 bogus +'' 0 world_init = Some (None, w') \<and>
      w_heap w' = w_heap world_init"
    by auto
  with ok t b show ?thesis by simp
qed

subsection \<open>The operators on the list of values\<close>

lemma binop_sim:
  assumes "stack_ok st" and "stack_vals st = xs @ [a, b]"
    and "rpn_do st = (if st_n st < 2 then (- 1, st)
                      else (0, st\<lparr>st_v := (st_v st)[st_n st - 2 :=
                                   g (st_v st ! (st_n st - 2)) (st_v st ! (st_n st - 1))],
                                 st_n := st_n st - 1\<rparr>))"
  shows "\<exists>st'. rpn_do st = (0 :: int, st') \<and> stack_ok st' \<and> stack_vals st' = xs @ [g a b]"
  using stack_top2[OF assms(1,2)] stack_binop_result[OF assms(1,2), of "g a b"] assms(3)
  by simp

lemma unop_sim:
  assumes "stack_ok st" and "stack_vals st = xs @ [a]"
    and "rpn_do st = (if st_n st < 1 then (- 1, st)
                      else (0, st\<lparr>st_v := (st_v st)[st_n st - 1 := g (st_v st ! (st_n st - 1))]\<rparr>))"
  shows "\<exists>st'. rpn_do st = (0 :: int, st') \<and> stack_ok st' \<and> stack_vals st' = xs @ [g a]"
  using stack_top1[OF assms(1,2)] stack_unop_result[OF assms(1,2), of "g a"] assms(3)
  by simp



lemma const_sim:
  assumes "stack_ok st"
  shows "\<exists>st'. rpn_do_const st me = (0, st') \<and> stack_ok st' \<and>
           stack_vals st' = stack_vals st @ [r_value me]"
  using rpn_push_vals[OF assms, of "r_value me"] by (simp add: rpn_do_const_def)





subsection \<open>Compiling and running a postfix expression\<close>









end
